theory Spec2Isabelle
  imports Main
begin

section \<open>JSON values as the script holds them\<close>

text \<open>
  \<^verbatim>\<open>scripts/sync_productions.mjs\<close> works on values returned by \<^verbatim>\<open>JSON.parse\<close>.
  A value is \<^verbatim>\<open>null\<close>, a boolean, a number, a string, an array or an object; an object is
  the list of its own properties in the order in which JavaScript enumerates them.
  Numbers are the integers (the doubles that \<^verbatim>\<open>JSON.stringify\<close> prints as a plain run of
  decimal digits); fractions, exponents and infinities are outside this development.
  A character is one code unit in the range 0 to 255.
  The value \<^verbatim>\<open>undefined\<close> never occurs inside JSON data: the result of a property read is a
  \<open>json option\<close>, with \<open>None\<close> for \<^verbatim>\<open>undefined\<close>.
\<close>

datatype json =
    JNull
  | JBool bool
  | JNumber int
  | JString string
  | JArray "json list"
  | JObject "(string \<times> json) list"

datatype error =
    InvalidLimit string
  | ReadFailed string
  | MalformedJson string
  | CandidatesNotArray
  | ProductionsNotArray
  | TypeError

text \<open>Truthiness, as \<^verbatim>\<open>!x\<close>, \<^verbatim>\<open>x || y\<close> and \<^verbatim>\<open>if (x)\<close> test it.\<close>

fun truthy :: "json \<Rightarrow> bool" where
  "truthy JNull = False"
| "truthy (JBool b) = b"
| "truthy (JNumber n) = (n \<noteq> 0)"
| "truthy (JString s) = (s \<noteq> [])"
| "truthy (JArray xs) = True"
| "truthy (JObject kvs) = True"

fun is_primitive :: "json \<Rightarrow> bool" where
  "is_primitive (JArray xs) = False"
| "is_primitive (JObject kvs) = False"
| "is_primitive v = True"

text \<open>\<^verbatim>\<open>typeof v === "object"\<close> holds of \<^verbatim>\<open>null\<close>, of arrays and of objects.\<close>

fun typeof_object :: "json \<Rightarrow> bool" where
  "typeof_object JNull = True"
| "typeof_object (JArray xs) = True"
| "typeof_object (JObject kvs) = True"
| "typeof_object v = False"

subsection \<open>Decimal numerals\<close>

definition digit_chars :: string where
  "digit_chars = ''0123456789''"

definition is_digit :: "char \<Rightarrow> bool" where
  "is_digit c = (c \<in> set digit_chars)"

definition digit_value :: "char \<Rightarrow> nat" where
  "digit_value c = of_char c - 48"

fun show_nat :: "nat \<Rightarrow> string" where
  "show_nat n =
     (if n < 10 then [digit_chars ! n]
      else show_nat (n div 10) @ [digit_chars ! (n mod 10)])"

declare show_nat.simps [simp del]

definition show_int :: "int \<Rightarrow> string" where
  "show_int i = (if i < 0 then CHR ''-'' # show_nat (nat (- i)) else show_nat (nat i))"

definition digits_value :: "string \<Rightarrow> nat" where
  "digits_value ds = foldl (\<lambda>acc c. 10 * acc + digit_value c) 0 ds"

subsection \<open>Reading properties\<close>

text \<open>
  \<open>get_named v name\<close> is \<^verbatim>\<open>v.name\<close> for a value \<open>v\<close> other than \<^verbatim>\<open>null\<close> and a name
  that is neither \<^verbatim>\<open>length\<close> nor an index (the script reads \<^verbatim>\<open>id\<close> and \<^verbatim>\<open>themes\<close>):
  an object yields its own property, every other value \<^verbatim>\<open>undefined\<close>.
  \<open>get_length v\<close> is \<^verbatim>\<open>v.length\<close> and \<open>get_index v i\<close> is \<^verbatim>\<open>v[i]\<close> for an index \<open>i\<close>.
\<close>

fun get_named :: "json \<Rightarrow> string \<Rightarrow> json option" where
  "get_named (JObject kvs) name = map_of kvs name"
| "get_named v name = None"

fun get_length :: "json \<Rightarrow> json option" where
  "get_length (JArray xs) = Some (JNumber (int (length xs)))"
| "get_length (JString s) = Some (JNumber (int (length s)))"
| "get_length (JObject kvs) = map_of kvs ''length''"
| "get_length v = None"

fun get_index :: "json \<Rightarrow> nat \<Rightarrow> json option" where
  "get_index (JArray xs) i = (if i < length xs then Some (xs ! i) else None)"
| "get_index (JString s) i = (if i < length s then Some (JString [s ! i]) else None)"
| "get_index (JObject kvs) i = map_of kvs (show_nat i)"
| "get_index v i = None"

text \<open>\<^verbatim>\<open>x || []\<close> for the result \<open>x\<close> of a property read.\<close>

fun or_empty :: "json option \<Rightarrow> json" where
  "or_empty None = JArray []"
| "or_empty (Some v) = (if truthy v then v else JArray [])"

text \<open>
  \<^verbatim>\<open>a === b\<close>. Primitive values are compared by value. Arrays and objects are compared by
  reference: \<open>same\<close> tells whether the two operands were read along the same path from one
  and the same object (then they are the same reference); operands that stem from two
  different \<^verbatim>\<open>JSON.parse\<close> results are never the same reference.
\<close>

fun strict_equals :: "bool \<Rightarrow> json option \<Rightarrow> json option \<Rightarrow> bool" where
  "strict_equals same None None = True"
| "strict_equals same (Some a) (Some b) = (a = b \<and> (is_primitive a \<or> same))"
| "strict_equals same a b = False"

subsection \<open>Objects: property order, assignment, spread\<close>

text \<open>
  The own properties of an object are enumerated with the array indices first, in
  ascending numeric order, and then the other string keys in the order of their creation.
  An array index is a key that is the canonical decimal numeral of a number below
  \<open>2^32 - 1\<close>. \<open>obj_put\<close> defines or overwrites one property and keeps that order.
\<close>

definition array_index :: "string \<Rightarrow> nat option" where
  "array_index k =
     (if k \<noteq> [] \<and> list_all is_digit k \<and> show_nat (digits_value k) = k
         \<and> digits_value k < 4294967295
      then Some (digits_value k) else None)"

fun replace_value :: "string \<Rightarrow> json \<Rightarrow> (string \<times> json) list \<Rightarrow> (string \<times> json) list" where
  "replace_value k v [] = []"
| "replace_value k v ((k', v') # rest) =
     (if k' = k then (k, v) # rest else (k', v') # replace_value k v rest)"

fun insert_index :: "nat \<Rightarrow> string \<Rightarrow> json \<Rightarrow> (string \<times> json) list \<Rightarrow> (string \<times> json) list" where
  "insert_index n k v [] = [(k, v)]"
| "insert_index n k v ((k', v') # rest) =
     (case array_index k' of
        Some m \<Rightarrow> if m < n then (k', v') # insert_index n k v rest
                  else (k, v) # (k', v') # rest
      | None \<Rightarrow> (k, v) # (k', v') # rest)"

definition obj_put :: "(string \<times> json) list \<Rightarrow> string \<Rightarrow> json \<Rightarrow> (string \<times> json) list" where
  "obj_put kvs k v =
     (if map_of kvs k \<noteq> None then replace_value k v kvs
      else case array_index k of
             Some n \<Rightarrow> insert_index n k v kvs
           | None \<Rightarrow> kvs @ [(k, v)])"

text \<open>The own enumerable properties that a spread \<^verbatim>\<open>{...v}\<close> copies, in order.\<close>

fun own_properties :: "json \<Rightarrow> (string \<times> json) list" where
  "own_properties (JObject kvs) = kvs"
| "own_properties (JArray xs) = zip (map show_nat [0..<length xs]) xs"
| "own_properties (JString s) = zip (map show_nat [0..<length s]) (map (\<lambda>c. JString [c]) s)"
| "own_properties v = []"

definition obj_assign :: "(string \<times> json) list \<Rightarrow> (string \<times> json) list \<Rightarrow> (string \<times> json) list" where
  "obj_assign target source = foldl (\<lambda>acc kv. obj_put acc (fst kv) (snd kv)) target source"

subsection \<open>\<^verbatim>\<open>JSON.stringify\<close>\<close>

definition hex_chars :: string where
  "hex_chars = ''0123456789abcdef''"

text \<open>
  The characters with a two-character escape: the quotation mark, the backslash, and the
  control characters backspace, form feed, line feed, carriage return and tab. Every other
  control character is printed as \<^verbatim>\<open>\u00\<close> and two hexadecimal digits.
\<close>

definition short_escape :: "char \<Rightarrow> char option" where
  "short_escape c =
     (if c = CHR 0x22 then Some (CHR 0x22)
      else if c = CHR 0x5C then Some (CHR 0x5C)
      else if c = CHR 0x08 then Some (CHR ''b'')
      else if c = CHR 0x0C then Some (CHR ''f'')
      else if c = CHR 0x0A then Some (CHR ''n'')
      else if c = CHR 0x0D then Some (CHR ''r'')
      else if c = CHR 0x09 then Some (CHR ''t'')
      else None)"

definition escape_char :: "char \<Rightarrow> string" where
  "escape_char c =
     (case short_escape c of
        Some x \<Rightarrow> [CHR 0x5C, x]
      | None \<Rightarrow>
          if (of_char c :: nat) < 32
          then [CHR 0x5C, CHR ''u'', CHR ''0'', CHR ''0'',
                hex_chars ! (of_char c div 16), hex_chars ! (of_char c mod 16)]
          else [c])"

fun quote_tail :: "string \<Rightarrow> string" where
  "quote_tail [] = [CHR 0x22]"
| "quote_tail (c # cs) = escape_char c @ quote_tail cs"

definition quote :: "string \<Rightarrow> string" where
  "quote s = CHR 0x22 # quote_tail s"

text \<open>
  The compact form, \<^verbatim>\<open>JSON.stringify(v)\<close>. \<open>stringify_elements first xs\<close> prints the
  elements \<open>xs\<close> of an array and its closing bracket, with a comma before every element
  but the first one of the array; \<open>stringify_members\<close> does the same for an object.
\<close>

fun stringify :: "json \<Rightarrow> string"
  and stringify_elements :: "bool \<Rightarrow> json list \<Rightarrow> string"
  and stringify_members :: "bool \<Rightarrow> (string \<times> json) list \<Rightarrow> string" where
  "stringify JNull = ''null''"
| "stringify (JBool b) = (if b then ''true'' else ''false'')"
| "stringify (JNumber n) = show_int n"
| "stringify (JString s) = quote s"
| "stringify (JArray xs) = CHR ''['' # stringify_elements True xs"
| "stringify (JObject kvs) = CHR ''{'' # stringify_members True kvs"
| "stringify_elements first [] = '']''"
| "stringify_elements first (x # xs) =
     (if first then [] else '','') @ stringify x @ stringify_elements False xs"
| "stringify_members first [] = ''}''"
| "stringify_members first ((k, v) # kvs) =
     (if first then [] else '','') @ quote k @ '':'' @ stringify v @ stringify_members False kvs"

text \<open>
  \<^verbatim>\<open>normalizeRecord = (record) => JSON.parse(JSON.stringify(record))\<close>. Every value of type
  \<open>json\<close> is JSON data (it holds no \<^verbatim>\<open>undefined\<close>, function or date), and on JSON data the
  round trip through the text returns a fresh copy that is structurally equal.
\<close>

definition normalizeRecord :: "json \<Rightarrow> json" where
  "normalizeRecord record = record"

section \<open>The script\<close>

subsection \<open>\<^verbatim>\<open>parseArgs\<close> and \<^verbatim>\<open>parseLimit\<close>\<close>

definition starts_with_dashes :: "string \<Rightarrow> bool" where
  "starts_with_dashes arg = (take 2 arg = ''--'')"

text \<open>
  The loop of \<^verbatim>\<open>parseArgs\<close> over \<^verbatim>\<open>argv\<close> from the current index on. \<^verbatim>\<open>!next\<close> holds when
  there is no next argument or it is the empty string.
\<close>

fun parseArgs_from :: "string list \<Rightarrow> (string \<rightharpoonup> string) \<times> string set
    \<Rightarrow> (string \<rightharpoonup> string) \<times> string set" where
  "parseArgs_from [] acc = acc"
| "parseArgs_from [arg] (args, flags) =
     (if starts_with_dashes arg then (args, insert (drop 2 arg) flags) else (args, flags))"
| "parseArgs_from (arg # next # rest) (args, flags) =
     (if starts_with_dashes arg then
        (if next = [] \<or> starts_with_dashes next
         then parseArgs_from (next # rest) (args, insert (drop 2 arg) flags)
         else parseArgs_from rest (args(drop 2 arg \<mapsto> next), flags))
      else parseArgs_from (next # rest) (args, flags))"

definition parseArgs :: "string list \<Rightarrow> (string \<rightharpoonup> string) \<times> string set" where
  "parseArgs argv = parseArgs_from argv (Map.empty, {})"

text \<open>
  \<^verbatim>\<open>Number.parseInt(value, 10)\<close>: leading white space is skipped, one sign is read, and
  the longest run of decimal digits that follows is the number; without a digit the
  result is \<^verbatim>\<open>NaN\<close>, here \<open>None\<close>. Whatever follows the digits is ignored.
\<close>

definition is_white_space :: "char \<Rightarrow> bool" where
  "is_white_space c =
     (c \<in> {CHR 0x09, CHR 0x0A, CHR 0x0B, CHR 0x0C, CHR 0x0D, CHR 0x20, CHR 0xA0})"

definition parseInt :: "string \<Rightarrow> int option" where
  "parseInt value =
     (let s = dropWhile is_white_space value;
          negative = (s \<noteq> [] \<and> hd s = CHR ''-'');
          unsigned = (if s \<noteq> [] \<and> (hd s = CHR ''-'' \<or> hd s = CHR ''+'') then tl s else s);
          digits = takeWhile is_digit unsigned
      in if digits = [] then None
         else Some (if negative then - int (digits_value digits) else int (digits_value digits)))"

definition parseLimit :: "string option \<Rightarrow> error + nat option" where
  "parseLimit value =
     (case value of
        None \<Rightarrow> Inr None
      | Some text \<Rightarrow>
         (case parseInt text of
            None \<Rightarrow> Inl (InvalidLimit text)
          | Some parsed \<Rightarrow>
              if parsed \<le> 0 then Inl (InvalidLimit text) else Inr (Some (nat parsed))))"

subsection \<open>\<^verbatim>\<open>areArraysEqual\<close>\<close>

text \<open>
  Both call sites pass values that are truthy. Reading \<^verbatim>\<open>length\<close> of \<^verbatim>\<open>null\<close> throws, and so
  does calling \<^verbatim>\<open>left.every\<close> when \<open>left\<close> is not an array: JSON data holds no function.
\<close>

definition areArraysEqual :: "bool \<Rightarrow> json \<Rightarrow> json \<Rightarrow> error + bool" where
  "areArraysEqual same left right =
     (if left = JNull \<or> right = JNull then Inl TypeError
      else if \<not> strict_equals same (get_length left) (get_length right) then Inr False
      else case left of
             JArray xs \<Rightarrow>
               Inr (list_all (\<lambda>i. strict_equals same (Some (xs ! i)) (get_index right i))
                      [0..<length xs])
           | _ \<Rightarrow> Inl TypeError)"

subsection \<open>The index of the existing productions\<close>

text \<open>
  \<^verbatim>\<open>productionIndex\<close> is a \<^verbatim>\<open>Map\<close> from ids to positions. Its keys are compared by value when
  they are primitive and by reference otherwise; an id that is an array or an object
  is a reference that no candidate holds, so such an entry is never found again.
\<close>

definition index_set :: "(json \<rightharpoonup> nat) \<Rightarrow> json \<Rightarrow> nat \<Rightarrow> (json \<rightharpoonup> nat)" where
  "index_set m k i = (if is_primitive k then m(k \<mapsto> i) else m)"

definition index_get :: "(json \<rightharpoonup> nat) \<Rightarrow> json \<Rightarrow> nat option" where
  "index_get m k = (if is_primitive k then m k else None)"

fun buildProductionIndex :: "nat \<Rightarrow> json list \<Rightarrow> (json \<rightharpoonup> nat) \<Rightarrow> error + (json \<rightharpoonup> nat)" where
  "buildProductionIndex index [] m = Inr m"
| "buildProductionIndex index (production # rest) m =
     (if production = JNull then Inl TypeError
      else case get_named production ''id'' of
             None \<Rightarrow> buildProductionIndex (Suc index) rest m
           | Some ident \<Rightarrow>
               if truthy ident
               then buildProductionIndex (Suc index) rest (index_set m ident index)
               else buildProductionIndex (Suc index) rest m)"

subsection \<open>The merge loop\<close>

record merge_state =
  productions :: "json list"
  createdCount :: nat
  updatedCount :: nat
  themesUnchangedCount :: nat
  themeMismatchCount :: nat

text \<open>\<^verbatim>\<open>{ ...existing, ...candidate, themes: existingThemes }\<close>\<close>

definition merged_record :: "json \<Rightarrow> json \<Rightarrow> json \<Rightarrow> json" where
  "merged_record existing candidate existingThemes =
     JObject (obj_put
       (obj_assign (obj_assign [] (own_properties existing)) (own_properties candidate))
       ''themes'' existingThemes)"

text \<open>
  One call of the callback of \<^verbatim>\<open>limitedCandidates.forEach\<close>. In the second call of
  \<^verbatim>\<open>areArraysEqual\<close> both arguments are the same reference: \<^verbatim>\<open>merged.themes\<close> is
  \<open>existingThemes\<close>, which is truthy.
\<close>

definition mergeCandidate :: "(json \<rightharpoonup> nat) \<Rightarrow> json \<Rightarrow> merge_state \<Rightarrow> error + merge_state" where
  "mergeCandidate productionIndex candidate st =
     (if \<not> truthy candidate \<or> \<not> typeof_object candidate then Inr st
      else case get_named candidate ''id'' of
        None \<Rightarrow> Inr st
      | Some ident \<Rightarrow>
          if \<not> truthy ident then Inr st
          else case index_get productionIndex ident of
            None \<Rightarrow>
              Inr (st\<lparr>productions := productions st @ [candidate],
                       createdCount := createdCount st + 1\<rparr>)
          | Some existingIndex \<Rightarrow>
              if \<not> existingIndex < length (productions st) then Inl TypeError
              else
                let existing = productions st ! existingIndex in
                if existing = JNull then Inl TypeError
                else
                  let existingThemes = or_empty (get_named existing ''themes'');
                      candidateThemes = or_empty (get_named candidate ''themes'')
                  in case areArraysEqual False existingThemes candidateThemes of
                    Inl e \<Rightarrow> Inl e
                  | Inr themesEqual \<Rightarrow>
                      let merged = merged_record existing candidate existingThemes in
                      case areArraysEqual True existingThemes
                             (or_empty (get_named merged ''themes'')) of
                        Inl e \<Rightarrow> Inl e
                      | Inr unchanged \<Rightarrow>
                          let hasChanges =
                                (stringify (normalizeRecord existing)
                                   \<noteq> stringify (normalizeRecord merged))
                          in Inr (st\<lparr>
                               productions :=
                                 (if hasChanges then (productions st)[existingIndex := merged]
                                  else productions st),
                               updatedCount :=
                                 (if hasChanges then updatedCount st + 1 else updatedCount st),
                               themesUnchangedCount :=
                                 (if unchanged then themesUnchangedCount st + 1
                                  else themesUnchangedCount st),
                               themeMismatchCount :=
                                 (if themesEqual then themeMismatchCount st
                                  else themeMismatchCount st + 1)\<rparr>))"

fun mergeAll :: "(json \<rightharpoonup> nat) \<Rightarrow> json list \<Rightarrow> merge_state \<Rightarrow> error + merge_state" where
  "mergeAll productionIndex [] st = Inr st"
| "mergeAll productionIndex (candidate # rest) st =
     (case mergeCandidate productionIndex candidate st of
        Inl e \<Rightarrow> Inl e
      | Inr st' \<Rightarrow> mergeAll productionIndex rest st')"

definition initial_state :: "json list \<Rightarrow> merge_state" where
  "initial_state existing =
     \<lparr>productions = existing, createdCount = 0, updatedCount = 0,
      themesUnchangedCount = 0, themeMismatchCount = 0\<rparr>"

text \<open>\<^verbatim>\<open>limit ? candidates.slice(0, limit) : candidates\<close>\<close>

definition limitedCandidates :: "nat option \<Rightarrow> json list \<Rightarrow> json list" where
  "limitedCandidates limit candidates =
     (case limit of None \<Rightarrow> candidates | Some n \<Rightarrow> take n candidates)"

text \<open>Lines 72 to 130 of the script: the index, then the loop over the candidates.\<close>

definition merge :: "nat option \<Rightarrow> json list \<Rightarrow> json list \<Rightarrow> error + merge_state" where
  "merge limit candidates existing =
     (case buildProductionIndex 0 existing Map.empty of
        Inl e \<Rightarrow> Inl e
      | Inr productionIndex \<Rightarrow>
          mergeAll productionIndex (limitedCandidates limit candidates) (initial_state existing))"

subsection \<open>Files, the report and \<^verbatim>\<open>main\<close>\<close>

text \<open>
  A file is represented by what \<^verbatim>\<open>JSON.parse\<close> makes of its text: a value, or a syntax
  error. The file system maps a resolved path to a file; \<open>None\<close> is a missing or unreadable
  file. \<^verbatim>\<open>path.resolve\<close> is a parameter of \<open>main\<close>. Writing is assumed to succeed, and what
  is written is the text of \<^verbatim>\<open>JSON.stringify(productions, null, 2)\<close>, that is the file
  \<open>Parsed (JArray productions)\<close>.
\<close>

datatype file_content = Malformed | Parsed json

type_synonym filesystem = "string \<Rightarrow> file_content option"

definition readJson :: "filesystem \<Rightarrow> string \<Rightarrow> error + json" where
  "readJson fs filePath =
     (case fs filePath of
        None \<Rightarrow> Inl (ReadFailed filePath)
      | Some Malformed \<Rightarrow> Inl (MalformedJson filePath)
      | Some (Parsed v) \<Rightarrow> Inr v)"

text \<open>The lines that \<^verbatim>\<open>console.log\<close> prints, by their content.\<close>

datatype report_line =
    CandidatesFound nat
  | CandidatesProcessed nat nat
  | ProductionsCreated nat
  | ProductionsUpdated nat
  | ExistingThemesUnchanged nat
  | ThemeMismatches nat
  | DryRunNotice

record outcome =
  stdout :: "report_line list"
  failure :: "error option"
  files :: filesystem

definition exit_code :: "outcome \<Rightarrow> nat" where
  "exit_code out = (case failure out of None \<Rightarrow> 0 | Some e \<Rightarrow> 1)"

text \<open>\<^verbatim>\<open>main().catch(...)\<close>: the message goes to the error stream and the exit code is 1.\<close>

definition failed :: "filesystem \<Rightarrow> error \<Rightarrow> outcome" where
  "failed fs e = \<lparr>stdout = [], failure = Some e, files = fs\<rparr>"

definition DEFAULT_CANDIDATES_PATH :: string where
  "DEFAULT_CANDIDATES_PATH = ''data/production_candidates.json''"

definition DEFAULT_OUTPUT_PATH :: string where
  "DEFAULT_OUTPUT_PATH = ''docs/data/productions.json''"

text \<open>\<^verbatim>\<open>args.get(name) || fallback\<close>\<close>

definition arg_or :: "string option \<Rightarrow> string \<Rightarrow> string" where
  "arg_or value fallback = (case value of None \<Rightarrow> fallback | Some p \<Rightarrow> if p = [] then fallback else p)"

definition report :: "nat \<Rightarrow> nat option \<Rightarrow> nat \<Rightarrow> merge_state \<Rightarrow> report_line list" where
  "report totalCandidates limit processed st =
     [CandidatesFound totalCandidates]
     @ (case limit of None \<Rightarrow> [] | Some n \<Rightarrow> [CandidatesProcessed n processed])
     @ [ProductionsCreated (createdCount st),
        ProductionsUpdated (updatedCount st),
        ExistingThemesUnchanged (themesUnchangedCount st)]
     @ (if themeMismatchCount st > 0 then [ThemeMismatches (themeMismatchCount st)] else [])"

text \<open>
  Lines 59 to 154 of \<^verbatim>\<open>main\<close>: what it does once the two paths, the limit and the dry-run
  flag are known.
\<close>

definition run :: "(string \<Rightarrow> string) \<Rightarrow> filesystem \<Rightarrow> string \<Rightarrow> string
    \<Rightarrow> nat option \<Rightarrow> bool \<Rightarrow> outcome" where
  "run resolve fs candidatesPath outputPath limit dryRun =
     (let resolvedCandidatesPath = resolve candidatesPath;
          resolvedOutputPath = resolve outputPath
      in case readJson fs resolvedCandidatesPath of
        Inl e \<Rightarrow> failed fs e
      | Inr candidates \<Rightarrow>
         (case readJson fs resolvedOutputPath of
            Inl e \<Rightarrow> failed fs e
          | Inr existing \<Rightarrow>
             (case candidates of
                JArray cs \<Rightarrow>
                 (case existing of
                    JArray ps \<Rightarrow>
                     (case merge limit cs ps of
                        Inl e \<Rightarrow> failed fs e
                      | Inr st \<Rightarrow>
                          let lines = report (length cs) limit
                                        (length (limitedCandidates limit cs)) st
                          in if dryRun
                             then \<lparr>stdout = lines @ [DryRunNotice], failure = None,
                                   files = fs\<rparr>
                             else \<lparr>stdout = lines, failure = None,
                                   files = fs(resolvedOutputPath \<mapsto>
                                              Parsed (JArray (productions st)))\<rparr>)
                  | _ \<Rightarrow> failed fs ProductionsNotArray)
              | _ \<Rightarrow> failed fs CandidatesNotArray)))"

text \<open>
  Lines 54 to 57 of \<^verbatim>\<open>main\<close>, once \<^verbatim>\<open>parseArgs\<close> has returned \<open>args\<close> and \<open>flags\<close>: the
  limit is parsed before any file is read.
\<close>

definition main_parsed :: "(string \<Rightarrow> string) \<Rightarrow> filesystem
    \<Rightarrow> (string \<rightharpoonup> string) \<Rightarrow> string set \<Rightarrow> outcome" where
  "main_parsed resolve fs args flags =
     (let candidatesPath = arg_or (args ''candidates'') DEFAULT_CANDIDATES_PATH;
          outputPath = arg_or (args ''output'') DEFAULT_OUTPUT_PATH
      in case parseLimit (args ''limit'') of
        Inl e \<Rightarrow> failed fs e
      | Inr limit \<Rightarrow>
          let dryRun = (''dry-run'' \<in> flags)
          in run resolve fs candidatesPath outputPath limit dryRun)"

definition main :: "(string \<Rightarrow> string) \<Rightarrow> filesystem \<Rightarrow> string list \<Rightarrow> outcome" where
  "main resolve fs argv =
     (case parseArgs argv of (args, flags) \<Rightarrow> main_parsed resolve fs args flags)"

section \<open>Notions in which the claims are stated\<close>

text \<open>
  \<open>candidate_id c\<close> is the id under which the loop treats the candidate \<open>c\<close>; it is \<open>None\<close>
  for a candidate that the loop skips (one that is not an object, or has no truthy
  \<^verbatim>\<open>id\<close>). \<open>merge_into existing c\<close> is the record \<^verbatim>\<open>merged\<close> that the loop builds from the
  record \<open>existing\<close> and the candidate \<open>c\<close>.
\<close>

definition candidate_id :: "json \<Rightarrow> json option" where
  "candidate_id candidate =
     (if truthy candidate \<and> typeof_object candidate
      then case get_named candidate ''id'' of
             None \<Rightarrow> None
           | Some ident \<Rightarrow> if truthy ident then Some ident else None
      else None)"

text \<open>
  \<open>record_id p\<close> is the key under which the index can find the existing record \<open>p\<close>: its
  \<^verbatim>\<open>id\<close>, when that is truthy and primitive. \<open>position_of ps k\<close> is the last position in \<open>ps\<close>
  of a record with the key \<open>k\<close>, and \<open>candidate_position ps c\<close> the position at which the
  candidate \<open>c\<close> finds an existing record. A candidate is new when the loop treats it and it
  finds no existing record.
\<close>

definition record_id :: "json \<Rightarrow> json option" where
  "record_id p =
     (case get_named p ''id'' of
        None \<Rightarrow> None
      | Some k \<Rightarrow> if truthy k \<and> is_primitive k then Some k else None)"

fun position_of :: "json list \<Rightarrow> json \<Rightarrow> nat option" where
  "position_of [] k = None"
| "position_of (p # ps) k =
     (case position_of ps k of
        Some j \<Rightarrow> Some (Suc j)
      | None \<Rightarrow> if record_id p = Some k then Some 0 else None)"

definition candidate_position :: "json list \<Rightarrow> json \<Rightarrow> nat option" where
  "candidate_position ps c =
     (case candidate_id c of None \<Rightarrow> None | Some ident \<Rightarrow> position_of ps ident)"

definition is_new :: "json list \<Rightarrow> json \<Rightarrow> bool" where
  "is_new ps c = (candidate_id c \<noteq> None \<and> candidate_position ps c = None)"

text \<open>
  The property lists that JavaScript objects have: no key twice, the array indices first and
  in ascending order, then the other keys. Every object that \<^verbatim>\<open>JSON.parse\<close> returns is of
  this form. \<open>is_js_value\<close> asks it of a value that is an object, at its top level.
\<close>

definition key_before :: "string \<Rightarrow> string \<Rightarrow> bool" where
  "key_before k1 k2 =
     (case array_index k1 of
        Some m \<Rightarrow> (case array_index k2 of Some n \<Rightarrow> m < n | None \<Rightarrow> True)
      | None \<Rightarrow> array_index k2 = None)"

fun keys_ordered :: "string list \<Rightarrow> bool" where
  "keys_ordered (k1 # k2 # ks) = (key_before k1 k2 \<and> keys_ordered (k2 # ks))"
| "keys_ordered ks = True"

definition canonical :: "(string \<times> json) list \<Rightarrow> bool" where
  "canonical kvs = (distinct (map fst kvs) \<and> keys_ordered (map fst kvs))"

fun is_js_value :: "json \<Rightarrow> bool" where
  "is_js_value (JObject kvs) = canonical kvs"
| "is_js_value v = True"

text \<open>A file whose top-level value is an array.\<close>

fun holds_array :: "file_content option \<Rightarrow> bool" where
  "holds_array (Some (Parsed (JArray xs))) = True"
| "holds_array f = False"

text \<open>A property that is missing, or whose value is falsy.\<close>

fun is_falsy :: "json option \<Rightarrow> bool" where
  "is_falsy None = True"
| "is_falsy (Some v) = (\<not> truthy v)"

definition merge_into :: "json \<Rightarrow> json \<Rightarrow> json" where
  "merge_into existing candidate =
     merged_record existing candidate (or_empty (get_named existing ''themes''))"

section \<open>Auxiliary notions for the proofs\<close>

text \<open>
  None of the following belongs to the script. \<open>not_digit_start\<close> holds of a text that does not
  go on with a digit, \<open>short_unescape\<close> reads a two-character escape back, and \<open>kind\<close> and
  \<open>char_kind\<close> relate a value to the first character of its text.
\<close>

definition not_digit_start :: "string \<Rightarrow> bool" where
  "not_digit_start r = (case r of [] \<Rightarrow> True | c # cs \<Rightarrow> \<not> is_digit c)"

definition short_unescape :: "char \<Rightarrow> char" where
  "short_unescape x =
     (if x = CHR ''b'' then CHR 0x08 else if x = CHR ''f'' then CHR 0x0C
      else if x = CHR ''n'' then CHR 0x0A else if x = CHR ''r'' then CHR 0x0D
      else if x = CHR ''t'' then CHR 0x09 else x)"

fun kind :: "json \<Rightarrow> nat" where
  "kind JNull = 0"
| "kind (JBool b) = 1"
| "kind (JNumber n) = 2"
| "kind (JString s) = 3"
| "kind (JArray xs) = 4"
| "kind (JObject kvs) = 5"

definition char_kind :: "char \<Rightarrow> nat" where
  "char_kind c =
     (if c = CHR ''n'' then 0 else if c = CHR ''t'' \<or> c = CHR ''f'' then 1
      else if c = CHR ''-'' \<or> is_digit c then 2 else if c = CHR 0x22 then 3
      else if c = CHR ''['' then 4 else if c = CHR ''{'' then 5 else 6)"

section \<open>\<^verbatim>\<open>JSON.stringify\<close> is injective\<close>

text \<open>
  Two values with the same text are equal, so that comparing the texts of two records, as
  the script does, is comparing the records.
\<close>

subsection \<open>Numerals\<close>

lemma lt10_cases: "(d::nat) < 10 \<Longrightarrow> d = 0 \<or> d = 1 \<or> d = 2 \<or> d = 3 \<or> d = 4 \<or> d = 5 \<or> d = 6 \<or> d = 7 \<or> d = 8 \<or> d = 9"
  by arith

lemma digit_chars_nth_is_digit: "d < 10 \<Longrightarrow> is_digit (digit_chars ! d)"
  unfolding is_digit_def by (rule nth_mem) (simp add: digit_chars_def)

lemma digit_value_nth: "d < 10 \<Longrightarrow> digit_value (digit_chars ! d) = d"
  using lt10_cases [of d] by (auto simp: digit_value_def digit_chars_def)

lemma show_nat_not_Nil: "show_nat n \<noteq> []"
  by (subst show_nat.simps) simp

lemma show_nat_all_digits: "list_all is_digit (show_nat n)"
proof (induction n rule: show_nat.induct)
  case (1 n)
  show ?case
  proof (cases "n < 10")
    case True
    then show ?thesis by (subst show_nat.simps) (simp add: digit_chars_nth_is_digit)
  next
    case False
    with 1 show ?thesis by (subst show_nat.simps) (simp add: digit_chars_nth_is_digit)
  qed
qed

lemma digits_value_snoc: "digits_value (ds @ [c]) = 10 * digits_value ds + digit_value c"
  by (simp add: digits_value_def)

lemma digits_value_show_nat: "digits_value (show_nat n) = n"
proof (induction n rule: show_nat.induct)
  case (1 n)
  show ?case
  proof (cases "n < 10")
    case True
    then show ?thesis by (subst show_nat.simps) (simp add: digits_value_def digit_value_nth)
  next
    case False
    with 1 show ?thesis by (subst show_nat.simps) (simp add: digits_value_snoc digit_value_nth)
  qed
qed

lemma show_nat_inj: "show_nat m = show_nat n \<Longrightarrow> m = n"
  by (metis digits_value_show_nat)

lemma takeWhile_digits_append:
  "list_all is_digit ds \<Longrightarrow> not_digit_start r \<Longrightarrow> takeWhile is_digit (ds @ r) = ds"
  by (induction ds) (auto simp: not_digit_start_def split: list.splits)

lemma show_nat_append_inj:
  assumes "show_nat m @ r = show_nat n @ r'" "not_digit_start r" "not_digit_start r'"
  shows "m = n \<and> r = r'"
proof -
  have "takeWhile is_digit (show_nat m @ r) = show_nat m"
    using assms(2) by (simp add: takeWhile_digits_append show_nat_all_digits)
  moreover have "takeWhile is_digit (show_nat n @ r') = show_nat n"
    using assms(3) by (simp add: takeWhile_digits_append show_nat_all_digits)
  ultimately have "show_nat m = show_nat n" using assms(1) by simp
  then show ?thesis using assms(1) by (simp add: show_nat_inj)
qed

lemma show_nat_hd_digit: "is_digit (hd (show_nat n))"
  using show_nat_all_digits [of n] show_nat_not_Nil [of n] by (cases "show_nat n") simp_all

lemma show_int_append_inj:
  assumes "show_int i @ r = show_int j @ r'" "not_digit_start r" "not_digit_start r'"
  shows "i = j \<and> r = r'"
proof -
  have nd: "\<not> is_digit (CHR ''-'')" by (simp add: is_digit_def digit_chars_def)
  have hd_pos: "\<And>n s. hd (show_nat n @ s) \<noteq> CHR ''-''"
    using show_nat_hd_digit show_nat_not_Nil nd by (metis hd_append2)
  show ?thesis
  proof (cases "i < 0")
    case True
    show ?thesis
    proof (cases "j < 0")
      case j: True
      from assms True j have "show_nat (nat (- i)) @ r = show_nat (nat (- j)) @ r'"
        by (simp add: show_int_def)
      from show_nat_append_inj [OF this assms(2,3)] True j show ?thesis by auto
    next
      case j: False
      from assms(1) True j have "CHR ''-'' # show_nat (nat (- i)) @ r = show_nat (nat j) @ r'"
        by (simp add: show_int_def)
      then have "hd (show_nat (nat j) @ r') = CHR ''-''" by (metis list.sel(1))
      with hd_pos show ?thesis by blast
    qed
  next
    case False
    show ?thesis
    proof (cases "j < 0")
      case j: True
      from assms(1) False j have "show_nat (nat i) @ r = CHR ''-'' # show_nat (nat (- j)) @ r'"
        by (simp add: show_int_def)
      then have "hd (show_nat (nat i) @ r) = CHR ''-''" by (metis list.sel(1))
      with hd_pos show ?thesis by blast
    next
      case j: False
      from assms False j have "show_nat (nat i) @ r = show_nat (nat j) @ r'"
        by (simp add: show_int_def)
      from show_nat_append_inj [OF this assms(2,3)] False j show ?thesis by auto
    qed
  qed
qed

subsection \<open>Quoted strings\<close>

lemma hex_chars_inj: "i < 16 \<Longrightarrow> j < 16 \<Longrightarrow> hex_chars ! i = hex_chars ! j \<Longrightarrow> i = j"
proof -
  have d: "distinct hex_chars" by (simp add: hex_chars_def)
  have l: "length hex_chars = 16" by (simp add: hex_chars_def)
  show "i < 16 \<Longrightarrow> j < 16 \<Longrightarrow> hex_chars ! i = hex_chars ! j \<Longrightarrow> i = j"
    using d l by (simp add: nth_eq_iff_index_eq)
qed

lemma hex_pair_inj:
  assumes "hex_chars ! (a div 16) = hex_chars ! (b div 16)"
    and "hex_chars ! (a mod 16) = hex_chars ! (b mod 16)"
    and "a < 32" "b < 32"
  shows "a = (b::nat)"
proof -
  have "a div 16 < 16" "b div 16 < 16" using assms(3,4) by auto
  with assms(1) have q: "a div 16 = b div 16" by (rule_tac hex_chars_inj) auto
  have "a mod 16 = b mod 16" using assms(2) by (rule_tac hex_chars_inj) auto
  with q show ?thesis by (metis div_mult_mod_eq)
qed

lemma short_unescape: "short_escape c = Some x \<Longrightarrow> short_unescape x = c"
  by (auto simp add: short_escape_def short_unescape_def split: if_splits)

lemma short_escape_inj: "short_escape c = Some x \<Longrightarrow> short_escape c' = Some x \<Longrightarrow> c = c'"
  using short_unescape by metis

lemma short_escape_not_u: "short_escape c \<noteq> Some (CHR ''u'')"
  by (simp add: short_escape_def)

lemma short_escape_specials:
  "short_escape (CHR 0x5C) = Some (CHR 0x5C)" "short_escape (CHR 0x22) = Some (CHR 0x22)"
  by (simp_all add: short_escape_def)

lemma escape_char_long:
  "short_escape c = None \<Longrightarrow> (of_char c :: nat) < 32 \<Longrightarrow>
   escape_char c = [CHR 0x5C, CHR ''u'', CHR ''0'', CHR ''0'',
                hex_chars ! (of_char c div 16), hex_chars ! (of_char c mod 16)]"
  by (simp add: escape_char_def)

lemma escape_char_plain:
  "short_escape c = None \<Longrightarrow> \<not> (of_char c :: nat) < 32 \<Longrightarrow> escape_char c = [c]"
  by (simp add: escape_char_def)

lemma escape_char_short:
  "short_escape c = Some x \<Longrightarrow> escape_char c = [CHR 0x5C, x]"
  by (simp add: escape_char_def)

lemma escape_char_prefix_free:
  assumes "escape_char c @ r = escape_char c' @ r'"
  shows "c = c' \<and> r = r'"
proof (cases "short_escape c")
  case None
  note c = this
  show ?thesis
  proof (cases "short_escape c'")
    case None
    show ?thesis
    proof (cases "(of_char c :: nat) < 32")
      case True
      note lt = this
      show ?thesis
      proof (cases "(of_char c' :: nat) < 32")
        case True
        from assms
        have "hex_chars ! (of_char c div 16) = hex_chars ! (of_char c' div 16)"
          and "hex_chars ! (of_char c mod 16) = hex_chars ! (of_char c' mod 16)" and "r = r'"
          unfolding escape_char_long [OF c lt] escape_char_long [OF None True] by simp_all
        with hex_pair_inj [of "of_char c" "of_char c'"] lt True 
        have "(of_char c :: nat) = of_char c'" and "r = r'" by blast+
        then show ?thesis by simp
      next
        case False
        from assms have "c' = CHR 0x5C" 
          unfolding escape_char_long [OF c lt] escape_char_plain [OF None False] by simp
        with None short_escape_specials show ?thesis by simp
      qed
    next
      case False
      note ge = this
      show ?thesis
      proof (cases "(of_char c' :: nat) < 32")
        case True
        from assms have "c = CHR 0x5C"
          unfolding escape_char_plain [OF c ge] escape_char_long [OF None True] by simp
        with c short_escape_specials show ?thesis by simp
      next
        case False
        from assms show ?thesis
          unfolding escape_char_plain [OF c ge] escape_char_plain [OF None False] by simp
      qed
    qed
  next
    case (Some x')
    have "c = CHR 0x5C \<or> x' = CHR ''u''"
    proof (cases "(of_char c :: nat) < 32")
      case True
      from assms show ?thesis 
        unfolding escape_char_long [OF c True] escape_char_short [OF Some] by simp
    next
      case False
      from assms show ?thesis 
        unfolding escape_char_plain [OF c False] escape_char_short [OF Some] by simp
    qed
    with c Some short_escape_specials short_escape_not_u [of c'] show ?thesis by auto
  qed
next
  case (Some x)
  note c = this
  show ?thesis
  proof (cases "short_escape c'")
    case None
    have "c' = CHR 0x5C \<or> x = CHR ''u''"
    proof (cases "(of_char c' :: nat) < 32")
      case True
      from assms show ?thesis 
        unfolding escape_char_long [OF None True] escape_char_short [OF c] by simp
    next
      case False
      from assms show ?thesis 
        unfolding escape_char_plain [OF None False] escape_char_short [OF c] by simp
    qed
    with c None short_escape_specials short_escape_not_u [of c] show ?thesis by auto
  next
    case (Some x')
    from assms have "x = x'" "r = r'" 
      unfolding escape_char_short [OF c] escape_char_short [OF Some] by simp_all
    with c Some short_escape_inj show ?thesis by blast
  qed
qed

lemma escape_char_no_quote: "escape_char c @ r \<noteq> CHR 0x22 # r'"
proof (cases "short_escape c")
  case None
  show ?thesis
  proof (cases "(of_char c :: nat) < 32")
    case True
    show ?thesis unfolding escape_char_long [OF None True] by simp
  next
    case False
    have "c \<noteq> CHR 0x22" using None short_escape_specials by auto
    then show ?thesis unfolding escape_char_plain [OF None False] by simp
  qed
next
  case (Some x)
  show ?thesis unfolding escape_char_short [OF Some] by simp
qed

lemma quote_tail_inj: "quote_tail s @ r = quote_tail s' @ r' \<Longrightarrow> s = s' \<and> r = r'"
proof (induction s arbitrary: s')
  case Nil
  show ?case
  proof (cases s')
    case Nil
    with Nil.prems show ?thesis by simp
  next
    case (Cons c' cs')
    with Nil.prems have "escape_char c' @ (quote_tail cs' @ r') = CHR 0x22 # r" by simp
    then show ?thesis using escape_char_no_quote [of c' "quote_tail cs' @ r'" r] by simp
  qed
next
  case (Cons c cs)
  show ?case
  proof (cases s')
    case Nil
    with Cons.prems have "escape_char c @ (quote_tail cs @ r) = CHR 0x22 # r'" by simp
    then show ?thesis using escape_char_no_quote [of c "quote_tail cs @ r" r'] by simp
  next
    case s': (Cons c' cs')
    with Cons.prems have "escape_char c @ (quote_tail cs @ r) = escape_char c' @ (quote_tail cs' @ r')"
      by simp
    from escape_char_prefix_free [OF this]
    have cc: "c = c'" and rest: "quote_tail cs @ r = quote_tail cs' @ r'" by simp_all
    from Cons.IH [OF rest] cc s' show ?thesis by simp
  qed
qed

lemma quote_inj: "quote s @ r = quote s' @ r' \<Longrightarrow> s = s' \<and> r = r'"
  using quote_tail_inj [of s r s' r'] by (simp add: quote_def)

subsection \<open>Values\<close>

lemma char_kind_digit: "is_digit c \<Longrightarrow> char_kind c = 2"
  by (auto simp: char_kind_def is_digit_def digit_chars_def)

lemma show_int_kind: "\<exists>c s. show_int n = c # s \<and> char_kind c = 2"
proof (cases "n < 0")
  case True
  then show ?thesis by (simp add: show_int_def char_kind_def)
next
  case False
  obtain c s where cs: "show_nat (nat n) = c # s"
    using show_nat_not_Nil [of "nat n"] by (cases "show_nat (nat n)") auto
  with show_nat_hd_digit [of "nat n"] have "is_digit c" by simp
  with cs False show ?thesis by (simp add: show_int_def char_kind_digit)
qed

lemma stringify_kind: "\<exists>c s. stringify v = c # s \<and> char_kind c = kind v"
proof (cases v)
  case (JNumber n)
  then show ?thesis using show_int_kind [of n] by simp
qed (simp_all add: char_kind_def is_digit_def digit_chars_def quote_def)

lemma stringify_append_kind:
  assumes "stringify v @ r = stringify v' @ r'"
  shows "kind v = kind v'"
proof -
  obtain c s where a: "stringify v = c # s" "char_kind c = kind v" using stringify_kind by blast
  obtain c' s' where b: "stringify v' = c' # s'" "char_kind c' = kind v'" using stringify_kind by blast
  from assms a(1) b(1) have "c = c'" by simp
  with a b show ?thesis by simp
qed

lemma not_digit_start_elements: "not_digit_start (stringify_elements False xs @ r)"
  by (cases xs) (simp_all add: not_digit_start_def is_digit_def digit_chars_def)

lemma not_digit_start_members: "not_digit_start (stringify_members False kvs @ r)"
  by (cases kvs) (auto simp add: not_digit_start_def is_digit_def digit_chars_def)

lemma stringify_not_close:
  "stringify v @ r \<noteq> CHR '']'' # r'" "stringify v @ r \<noteq> CHR ''}'' # r'" "stringify v @ r \<noteq> CHR '','' # r'"
proof -
  obtain c s where a: "stringify v = c # s" "char_kind c = kind v" using stringify_kind by blast
  have "kind v < 6" by (cases v) simp_all
  with a have "c \<noteq> CHR '']''" "c \<noteq> CHR ''}''" "c \<noteq> CHR '',''"
    by (auto simp: char_kind_def is_digit_def digit_chars_def)
  with a(1) show "stringify v @ r \<noteq> CHR '']'' # r'" "stringify v @ r \<noteq> CHR ''}'' # r'" "stringify v @ r \<noteq> CHR '','' # r'"
    by simp_all
qed

lemma stringify_inj_aux:
  "\<forall>v' r r'. stringify v @ r = stringify v' @ r' \<longrightarrow> not_digit_start r \<longrightarrow> not_digit_start r'
      \<longrightarrow> v = v' \<and> r = r'"
  "\<forall>xs' r r'. stringify_elements first xs @ r = stringify_elements first xs' @ r'
      \<longrightarrow> xs = xs' \<and> r = r'"
  "\<forall>kvs' r r'. stringify_members first' kvs @ r = stringify_members first' kvs' @ r'
      \<longrightarrow> kvs = kvs' \<and> r = r'"
proof (induction v and first xs and first' kvs
    rule: stringify_stringify_elements_stringify_members.induct)
  case 1
  show ?case
  proof (intro allI impI)
    fix v' r r' assume eq: "stringify JNull @ r = stringify v' @ r'"
    from stringify_append_kind [OF eq] have "v' = JNull" by (cases v') simp_all
    with eq show "JNull = v' \<and> r = r'" by simp
  qed
next
  case (2 b)
  show ?case
  proof (intro allI impI)
    fix v' r r' assume eq: "stringify (JBool b) @ r = stringify v' @ r'"
    from stringify_append_kind [OF eq] obtain b' where v': "v' = JBool b'" by (cases v') simp_all
    with eq show "JBool b = v' \<and> r = r'" by (cases b; cases b') simp_all
  qed
next
  case (3 n)
  show ?case
  proof (intro allI impI)
    fix v' r r' assume eq: "stringify (JNumber n) @ r = stringify v' @ r'"
      and nd: "not_digit_start r" "not_digit_start r'"
    from stringify_append_kind [OF eq] obtain n' where v': "v' = JNumber n'" by (cases v') simp_all
    with eq have "show_int n @ r = show_int n' @ r'" by simp
    from show_int_append_inj [OF this nd] v' show "JNumber n = v' \<and> r = r'" by simp
  qed
next
  case (4 s)
  show ?case
  proof (intro allI impI)
    fix v' r r' assume eq: "stringify (JString s) @ r = stringify v' @ r'"
    from stringify_append_kind [OF eq] obtain s' where v': "v' = JString s'" by (cases v') simp_all
    with eq have "quote s @ r = quote s' @ r'" by simp
    from quote_inj [OF this] v' show "JString s = v' \<and> r = r'" by simp
  qed
next
  case (5 xs)
  show ?case
  proof (intro allI impI)
    fix v' r r' assume eq: "stringify (JArray xs) @ r = stringify v' @ r'"
    from stringify_append_kind [OF eq] obtain xs' where v': "v' = JArray xs'" by (cases v') simp_all
    with eq have "stringify_elements True xs @ r = stringify_elements True xs' @ r'" by simp
    with 5 v' show "JArray xs = v' \<and> r = r'" by blast
  qed
next
  case (6 kvs)
  show ?case
  proof (intro allI impI)
    fix v' r r' assume eq: "stringify (JObject kvs) @ r = stringify v' @ r'"
    from stringify_append_kind [OF eq] obtain kvs' where v': "v' = JObject kvs'" by (cases v') simp_all
    with eq have "stringify_members True kvs @ r = stringify_members True kvs' @ r'" by simp
    with 6 v' show "JObject kvs = v' \<and> r = r'" by blast
  qed
next
  case (7 first)
  show ?case
  proof (intro allI impI)
    fix xs' r r' assume eq: "stringify_elements first [] @ r = stringify_elements first xs' @ r'"
    show "[] = xs' \<and> r = r'"
    proof (cases xs')
      case Nil
      with eq show ?thesis by simp
    next
      case (Cons x' xs'')
      with eq stringify_not_close(1) [of x' "stringify_elements False xs'' @ r'" r]
      show ?thesis by (cases first) simp_all
    qed
  qed
next
  case (8 first x xs)
  show ?case
  proof (intro allI impI)
    fix xs' r r' assume eq: "stringify_elements first (x # xs) @ r = stringify_elements first xs' @ r'"
    show "x # xs = xs' \<and> r = r'"
    proof (cases xs')
      case Nil
      with eq stringify_not_close(1) [of x "stringify_elements False xs @ r" r']
      show ?thesis by (cases first) simp_all
    next
      case (Cons x' xs'')
      with eq have "stringify x @ (stringify_elements False xs @ r)
          = stringify x' @ (stringify_elements False xs'' @ r')" by simp
      with "8.IH"(1) not_digit_start_elements
      have "x = x'" and "stringify_elements False xs @ r = stringify_elements False xs'' @ r'"
        by blast+
      with "8.IH"(2) Cons show ?thesis by blast
    qed
  qed
next
  case (9 first)
  show ?case
  proof (intro allI impI)
    fix kvs' r r' assume eq: "stringify_members first [] @ r = stringify_members first kvs' @ r'"
    show "[] = kvs' \<and> r = r'"
    proof (cases kvs')
      case Nil
      with eq show ?thesis by simp
    next
      case (Cons kv' kvs'')
      obtain k' v' where kv': "kv' = (k', v')" by (cases kv')
      from eq Cons kv' show ?thesis by (cases first) (simp_all add: quote_def)
    qed
  qed
next
  case (10 first k v kvs)
  show ?case
  proof (intro allI impI)
    fix kvs' r r'
    assume eq: "stringify_members first ((k, v) # kvs) @ r = stringify_members first kvs' @ r'"
    show "(k, v) # kvs = kvs' \<and> r = r'"
    proof (cases kvs')
      case Nil
      with eq show ?thesis by (cases first) (simp_all add: quote_def)
    next
      case (Cons kv' kvs'')
      obtain k' v' where kv': "kv' = (k', v')" by (cases kv')
      from eq Cons kv'
      have "quote k @ (CHR '':'' # stringify v @ stringify_members False kvs @ r)
          = quote k' @ (CHR '':'' # stringify v' @ stringify_members False kvs'' @ r')" by simp
      from quote_inj [OF this] have k: "k = k'"
        and "stringify v @ (stringify_members False kvs @ r)
          = stringify v' @ (stringify_members False kvs'' @ r')" by simp_all
      with "10.IH"(1) not_digit_start_members
      have "v = v'" and "stringify_members False kvs @ r = stringify_members False kvs'' @ r'"
        by blast+
      with "10.IH"(2) Cons kv' k show ?thesis by blast
    qed
  qed
qed

lemma stringify_inj: "stringify v = stringify v' \<Longrightarrow> v = v'"
  using stringify_inj_aux(1) [of v] by (metis append_Nil2 not_digit_start_def list.simps(4))

lemma stringify_eq_iff: "stringify v = stringify v' \<longleftrightarrow> v = v'"
  using stringify_inj by blast

section \<open>The example of the specification\<close>

lemmas eval_defs = merge_def initial_state_def limitedCandidates_def
  mergeCandidate_def index_set_def index_get_def areArraysEqual_def merged_record_def
  obj_assign_def obj_put_def array_index_def normalizeRecord_def quote_def escape_char_def
  short_escape_def is_digit_def digit_chars_def

text \<open>
  Claim C7. On the existing productions
  \<^verbatim>\<open>[{"id":"a","themes":["x"],"city":"NY"}]\<close> and the candidates
  \<^verbatim>\<open>[{"id":"a","themes":["y"],"city":"LA"},{"id":"b","themes":["z"]}]\<close> the merge returns
  \<^verbatim>\<open>[{"id":"a","themes":["x"],"city":"LA"},{"id":"b","themes":["z"]}]\<close> with one production
  created, one updated and one theme mismatch. (The count of unchanged themes, on which the
  example is silent, is one as well.)
\<close>

theorem example_merge:
  "merge None
     [JObject [(''id'', JString ''a''), (''themes'', JArray [JString ''y'']),
               (''city'', JString ''LA'')],
      JObject [(''id'', JString ''b''), (''themes'', JArray [JString ''z''])]]
     [JObject [(''id'', JString ''a''), (''themes'', JArray [JString ''x'']),
               (''city'', JString ''NY'')]]
   = Inr \<lparr>productions =
          [JObject [(''id'', JString ''a''), (''themes'', JArray [JString ''x'']),
                    (''city'', JString ''LA'')],
           JObject [(''id'', JString ''b''), (''themes'', JArray [JString ''z''])]],
        createdCount = 1, updatedCount = 1, themesUnchangedCount = 1,
        themeMismatchCount = 1\<rparr>"
  by (simp add: eval_defs)

section \<open>Objects and the comparison of themes\<close>

lemma map_of_replace_value:
  "map_of (replace_value k v kvs) k' = (if k' = k \<and> map_of kvs k \<noteq> None then Some v else map_of kvs k')"
  by (induction kvs) auto

lemma map_of_insert_index:
  "map_of kvs k = None \<Longrightarrow> map_of (insert_index n k v kvs) k' = (if k' = k then Some v else map_of kvs k')"
  by (induction kvs) (auto split: option.splits if_splits)

lemma map_of_obj_put: "map_of (obj_put kvs k v) k' = (if k' = k then Some v else map_of kvs k')"
  by (auto simp: obj_put_def map_of_replace_value map_of_insert_index map_add_def split: option.splits)

lemma truthy_or_empty: "truthy (or_empty x)"
  by (cases x) simp_all

lemma or_empty_not_null: "or_empty x \<noteq> JNull"
  using truthy_or_empty [of x] by auto

lemma themes_merged_record: "get_named (merged_record e c t) ''themes'' = Some t"
  by (simp add: merged_record_def map_of_obj_put)

lemma strict_equals_same: "strict_equals True x x"
  by (cases x) simp_all

lemma areArraysEqual_same:
  "areArraysEqual True t t = (case t of JArray xs \<Rightarrow> Inr True | _ \<Rightarrow> Inl TypeError)"
  by (cases t) (simp_all add: areArraysEqual_def list_all_iff strict_equals_same)

lemma areArraysEqual_array_left:
  "right \<noteq> JNull \<Longrightarrow> \<exists>b. areArraysEqual same (JArray xs) right = Inr b"
  by (auto simp: areArraysEqual_def)

section \<open>One candidate\<close>

lemma mergeCandidate_skip:
  "candidate_id c = None \<Longrightarrow> mergeCandidate idx c st = Inr st"
  by (auto simp: candidate_id_def mergeCandidate_def split: option.splits if_splits)

lemma candidate_id_SomeD:
  "candidate_id c = Some ident \<Longrightarrow>
     truthy c \<and> typeof_object c \<and> get_named c ''id'' = Some ident \<and> truthy ident"
  by (auto simp: candidate_id_def split: option.splits if_splits)

lemma mergeCandidate_new:
  "candidate_id c = Some ident \<Longrightarrow> index_get idx ident = None \<Longrightarrow>
   mergeCandidate idx c st =
     Inr (st\<lparr>productions := productions st @ [c], createdCount := createdCount st + 1\<rparr>)"
  by (auto simp: mergeCandidate_def dest!: candidate_id_SomeD)

lemma themes_merge_into:
  "get_named (merge_into e c) ''themes'' = Some (or_empty (get_named e ''themes''))"
  by (simp add: merge_into_def themes_merged_record)

lemma mergeCandidate_match:
  assumes "candidate_id c = Some ident" "index_get idx ident = Some i"
    and "i < length (productions st)" "productions st ! i \<noteq> JNull"
    and "or_empty (get_named (productions st ! i) ''themes'') = JArray ts"
  shows "mergeCandidate idx c st =
     Inr (st\<lparr>productions := (productions st)[i := merge_into (productions st ! i) c],
             updatedCount := (if merge_into (productions st ! i) c = productions st ! i
                              then updatedCount st else updatedCount st + 1),
             themesUnchangedCount := themesUnchangedCount st + 1,
             themeMismatchCount :=
               (if areArraysEqual False (JArray ts) (or_empty (get_named c ''themes'')) = Inr True
                then themeMismatchCount st else themeMismatchCount st + 1)\<rparr>)"
proof -
  note cid = candidate_id_SomeD [OF assms(1)]
  obtain b where b: "areArraysEqual False (JArray ts) (or_empty (get_named c ''themes'')) = Inr b"
    using areArraysEqual_array_left [OF or_empty_not_null] by blast
  have same: "areArraysEqual True (JArray ts) (JArray ts) = Inr True"
    by (simp add: areArraysEqual_same)
  have m: "merged_record (productions st ! i) c (JArray ts) = merge_into (productions st ! i) c"
    by (simp add: merge_into_def assms(5))
  show ?thesis
  proof (cases "merge_into (productions st ! i) c = productions st ! i")
    case True
    with cid assms b same m show ?thesis
      by (simp add: mergeCandidate_def Let_def themes_merge_into normalizeRecord_def)
  next
    case False
    then have "stringify (productions st ! i) \<noteq> stringify (merge_into (productions st ! i) c)"
      by (auto simp: stringify_eq_iff)
    with False cid assms b same m show ?thesis
      by (simp add: mergeCandidate_def Let_def themes_merge_into normalizeRecord_def)
  qed
qed

lemma mergeCandidate_match_error:
  assumes "candidate_id c = Some ident" "index_get idx ident = Some i"
    and "\<not> (i < length (productions st) \<and> productions st ! i \<noteq> JNull
          \<and> (\<exists>ts. or_empty (get_named (productions st ! i) ''themes'') = JArray ts))"
  shows "mergeCandidate idx c st = Inl TypeError"
proof -
  note cid = candidate_id_SomeD [OF assms(1)]
  show ?thesis
  proof (cases "i < length (productions st) \<and> productions st ! i \<noteq> JNull")
    case False
    with cid assms(2) show ?thesis by (auto simp: mergeCandidate_def Let_def)
  next
    case True
    define t where "t = or_empty (get_named (productions st ! i) ''themes'')"
    with True assms(3) have na: "\<not> (\<exists>ts. t = JArray ts)" by simp
    have same0: "areArraysEqual True t t = Inl TypeError"
      using na by (cases t) (simp_all add: areArraysEqual_same)
    have first0: "areArraysEqual False t (or_empty (get_named c ''themes'')) = Inl TypeError \<or>
          areArraysEqual False t (or_empty (get_named c ''themes'')) = Inr False"
      using na by (cases t) (simp_all add: areArraysEqual_def)
    note same = same0 [unfolded t_def] and first = first0 [unfolded t_def]
    from first show ?thesis
    proof
      assume "areArraysEqual False (or_empty (get_named (productions st ! i) ''themes''))
             (or_empty (get_named c ''themes'')) = Inl TypeError"
      with True cid assms(2) show ?thesis by (simp add: mergeCandidate_def Let_def)
    next
      assume "areArraysEqual False (or_empty (get_named (productions st ! i) ''themes''))
             (or_empty (get_named c ''themes'')) = Inr False"
      with True cid assms(2) same show ?thesis 
        by (simp add: mergeCandidate_def Let_def themes_merged_record truthy_or_empty)
    qed
  qed
qed

lemma or_empty_falsy: "is_falsy x \<Longrightarrow> or_empty x = JArray []"
  by (cases x) simp_all

text \<open>
  Claim C10. A candidate whose id matches an existing record that has no \<^verbatim>\<open>themes\<close> field, or
  a falsy one, is processed without error: the record is replaced by the merged record,
  whose \<^verbatim>\<open>themes\<close> field is the empty array, and the updated count goes up by one. This holds
  of every such candidate, also of one that is identical to the existing record.
\<close>

theorem missing_themes_become_empty:
  assumes "candidate_id c = Some ident" and "index_get idx ident = Some i"
    and "i < length (productions st)" and "productions st ! i \<noteq> JNull"
    and "is_falsy (get_named (productions st ! i) ''themes'')"
  shows "\<exists>st'. mergeCandidate idx c st = Inr st'
          \<and> productions st' = (productions st)[i := merge_into (productions st ! i) c]
          \<and> get_named (productions st' ! i) ''themes'' = Some (JArray [])
          \<and> productions st' ! i \<noteq> productions st ! i
          \<and> updatedCount st' = updatedCount st + 1"
proof -
  let ?e = "productions st ! i"
  have t: "or_empty (get_named ?e ''themes'') = JArray []"
    using assms(5) by (rule or_empty_falsy)
  have th: "get_named (merge_into ?e c) ''themes'' = Some (JArray [])"
    by (simp add: themes_merge_into t)
  have ne: "merge_into ?e c \<noteq> ?e"
  proof
    assume "merge_into ?e c = ?e"
    with th have "get_named ?e ''themes'' = Some (JArray [])" by simp
    with assms(5) show False by simp
  qed
  from mergeCandidate_match [OF assms(1-4) t] ne th assms(3) show ?thesis by simp
qed

theorem missing_themes_become_empty_witness:
  "candidate_id (JObject [(''id'', JString ''a''), (''city'', JString ''NY'')]) = Some (JString ''a'')
   \<and> index_get [JString ''a'' \<mapsto> 0] (JString ''a'') = Some 0
   \<and> is_falsy (get_named (JObject [(''id'', JString ''a''), (''city'', JString ''NY'')]) ''themes'')
   \<and> (\<exists>st'. mergeCandidate [JString ''a'' \<mapsto> 0]
               (JObject [(''id'', JString ''a''), (''city'', JString ''NY'')])
               (initial_state [JObject [(''id'', JString ''a''), (''city'', JString ''NY'')]]) = Inr st'
            \<and> productions st' = [JObject [(''id'', JString ''a''), (''city'', JString ''NY''),
                                          (''themes'', JArray [])]]
            \<and> updatedCount st' = 1)"
proof -
  let ?c = "JObject [(''id'', JString ''a''), (''city'', JString ''NY'')]"
  have h1: "candidate_id ?c = Some (JString ''a'')" by (simp add: candidate_id_def)
  have h2: "index_get [JString ''a'' \<mapsto> 0] (JString ''a'') = Some 0" by (simp add: index_get_def)
  have h3: "0 < length (productions (initial_state [?c]))" by (simp add: initial_state_def)
  have h4: "productions (initial_state [?c]) ! 0 \<noteq> JNull" by (simp add: initial_state_def)
  have h5: "is_falsy (get_named (productions (initial_state [?c]) ! 0) ''themes'')"
    by (simp add: initial_state_def)
  have m: "merge_into ?c ?c = JObject [(''id'', JString ''a''), (''city'', JString ''NY''),
                                          (''themes'', JArray [])]"
    by (simp add: merge_into_def eval_defs)
  from missing_themes_become_empty [OF h1 h2 h3 h4 h5] h1 h2 h5 m show ?thesis
    by (auto simp add: initial_state_def)
qed

text \<open>
  Claim C2, as the code has it. Whenever a candidate whose id matches an existing record is
  processed without error, the themes-unchanged count goes up by one, whether the record is
  replaced or not. The record is replaced, and the updated count goes up by one, exactly when
  the merged record differs from the existing one; otherwise the record and the updated
  count stay as they are. The created count stays as it is.
\<close>

theorem themes_unchanged_counts_every_match:
  assumes "candidate_id c = Some ident" and "index_get idx ident = Some i"
    and "mergeCandidate idx c st = Inr st'"
  shows "themesUnchangedCount st' = themesUnchangedCount st + 1
       \<and> createdCount st' = createdCount st
       \<and> (if merge_into (productions st ! i) c = productions st ! i
          then productions st' = productions st \<and> updatedCount st' = updatedCount st
          else productions st' = (productions st)[i := merge_into (productions st ! i) c]
               \<and> updatedCount st' = updatedCount st + 1)"
proof -
  have ok: "i < length (productions st) \<and> productions st ! i \<noteq> JNull
          \<and> (\<exists>ts. or_empty (get_named (productions st ! i) ''themes'') = JArray ts)"
    using mergeCandidate_match_error [OF assms(1,2)] assms(3) by fastforce
  then obtain ts where ts: "or_empty (get_named (productions st ! i) ''themes'') = JArray ts" by blast
  from ok have "i < length (productions st)" "productions st ! i \<noteq> JNull" by simp_all
  from mergeCandidate_match [OF assms(1,2) this ts] assms(3) show ?thesis by auto
qed

theorem themes_unchanged_counts_every_match_witness:
  "candidate_id (JObject [(''id'', JString ''a''), (''themes'', JArray [JString ''y'']),
                          (''city'', JString ''LA'')]) = Some (JString ''a'')
   \<and> index_get [JString ''a'' \<mapsto> 0] (JString ''a'') = Some 0
   \<and> mergeCandidate [JString ''a'' \<mapsto> 0]
        (JObject [(''id'', JString ''a''), (''themes'', JArray [JString ''y'']),
                  (''city'', JString ''LA'')])
        (initial_state [JObject [(''id'', JString ''a''), (''themes'', JArray [JString ''x'']),
                                 (''city'', JString ''NY'')]])
      = Inr \<lparr>productions = [JObject [(''id'', JString ''a''), (''themes'', JArray [JString ''x'']),
                                 (''city'', JString ''LA'')]],
             createdCount = 0, updatedCount = 1, themesUnchangedCount = 1,
             themeMismatchCount = 1\<rparr>
   \<and> themesUnchangedCount \<lparr>productions = [JObject [(''id'', JString ''a''), (''themes'', JArray [JString ''x'']),
                                 (''city'', JString ''LA'')]],
             createdCount = 0, updatedCount = 1, themesUnchangedCount = 1,
             themeMismatchCount = 1\<rparr>
       = themesUnchangedCount (initial_state [JObject [(''id'', JString ''a''), (''themes'', JArray [JString ''x'']),
                                 (''city'', JString ''NY'')]]) + 1"
proof -
  let ?c = "JObject [(''id'', JString ''a''), (''themes'', JArray [JString ''y'']),
                          (''city'', JString ''LA'')]"
  let ?st = "initial_state [JObject [(''id'', JString ''a''), (''themes'', JArray [JString ''x'']),
                                 (''city'', JString ''NY'')]]"
  have h1: "candidate_id ?c = Some (JString ''a'')" by (simp add: candidate_id_def)
  have h2: "index_get [JString ''a'' \<mapsto> 0] (JString ''a'') = Some 0" by (simp add: index_get_def)
  have h3: "mergeCandidate [JString ''a'' \<mapsto> 0] ?c ?st
      = Inr \<lparr>productions = [JObject [(''id'', JString ''a''), (''themes'', JArray [JString ''x'']),
                                 (''city'', JString ''LA'')]],
             createdCount = 0, updatedCount = 1, themesUnchangedCount = 1,
             themeMismatchCount = 1\<rparr>"
    by (simp add: eval_defs)
  from themes_unchanged_counts_every_match [OF h1 h2 h3] h1 h2 h3 show ?thesis by simp
qed

text \<open>
  Claim C2 as stated fails: here the candidate has the themes of the existing record and
  another city, the record is replaced, and both the updated count and the themes-unchanged
  count go up.
\<close>

theorem themes_unchanged_counted_with_update:
  "merge None
     [JObject [(''id'', JString ''a''), (''themes'', JArray [JString ''x'']),
               (''city'', JString ''LA'')]]
     [JObject [(''id'', JString ''a''), (''themes'', JArray [JString ''x'']),
               (''city'', JString ''NY'')]]
   = Inr \<lparr>productions =
          [JObject [(''id'', JString ''a''), (''themes'', JArray [JString ''x'']),
                    (''city'', JString ''LA'')]],
        createdCount = 0, updatedCount = 1, themesUnchangedCount = 1,
        themeMismatchCount = 0\<rparr>"
  by (simp add: eval_defs)

section \<open>The run as a whole: arguments, failures, dry run\<close>

lemma run_failure_no_write:
  "failure (run resolve fs cp op limit dry) \<noteq> None \<Longrightarrow> files (run resolve fs cp op limit dry) = fs"
  by (auto simp: run_def failed_def Let_def split: sum.splits json.splits if_splits)

lemma run_not_arrays:
  assumes "\<not> holds_array (fs (resolve cp)) \<or> \<not> holds_array (fs (resolve op))"
  shows "\<exists>e. run resolve fs cp op limit dry = failed fs e"
proof (cases "readJson fs (resolve cp)")
  case (Inl e)
  then show ?thesis by (auto simp add: run_def)
next
  case (Inr candidates)
  note c = this
  show ?thesis
  proof (cases "readJson fs (resolve op)")
    case (Inl e)
    with c show ?thesis by (auto simp add: run_def)
  next
    case (Inr existing)
    show ?thesis
    proof (cases "holds_array (fs (resolve cp))")
      case False
      with c have "\<not> (\<exists>cs. candidates = JArray cs)"
        by (auto simp: readJson_def split: option.splits file_content.splits)
      with c Inr show ?thesis by (cases candidates) (auto simp add: run_def)
    next
      case True
      with assms have "\<not> holds_array (fs (resolve op))" by simp
      with Inr have "\<not> (\<exists>ps. existing = JArray ps)"
        by (auto simp: readJson_def split: option.splits file_content.splits)
      with c Inr show ?thesis by (cases candidates; cases existing) (auto simp add: run_def)
    qed
  qed
qed

text \<open>
  Claim C9. When the limit is invalid, or when one of the two input files is missing, is not
  JSON or does not hold an array at its top level, the run ends with an error (exit code 1),
  nothing is printed on the standard output, and no file is written: the file system is
  what it was.
\<close>

theorem invalid_input_writes_nothing:
  assumes "parseArgs argv = (args, flags)"
    and "isl (parseLimit (args ''limit''))
       \<or> \<not> holds_array (fs (resolve (arg_or (args ''candidates'') DEFAULT_CANDIDATES_PATH)))
       \<or> \<not> holds_array (fs (resolve (arg_or (args ''output'') DEFAULT_OUTPUT_PATH)))"
  shows "files (main resolve fs argv) = fs \<and> exit_code (main resolve fs argv) = 1
       \<and> stdout (main resolve fs argv) = []"
proof (cases "parseLimit (args ''limit'')")
  case (Inl e)
  with assms(1) show ?thesis by (simp add: main_def main_parsed_def failed_def exit_code_def)
next
  case (Inr limit)
  with assms(2) have "\<not> holds_array (fs (resolve (arg_or (args ''candidates'') DEFAULT_CANDIDATES_PATH)))
       \<or> \<not> holds_array (fs (resolve (arg_or (args ''output'') DEFAULT_OUTPUT_PATH)))" by simp
  from run_not_arrays [where fs = fs and resolve = resolve, OF this] obtain e where
    "run resolve fs (arg_or (args ''candidates'') DEFAULT_CANDIDATES_PATH)
       (arg_or (args ''output'') DEFAULT_OUTPUT_PATH) limit (''dry-run'' \<in> flags) = failed fs e"
    by blast
  with Inr assms(1) show ?thesis by (simp add: main_def main_parsed_def failed_def exit_code_def)
qed

theorem invalid_input_writes_nothing_witness:
  "parseArgs [] = (Map.empty, {})
   \<and> \<not> holds_array ([''data/production_candidates.json'' \<mapsto> Parsed (JObject []),
                       ''docs/data/productions.json'' \<mapsto> Parsed (JArray [])]
                      ((\<lambda>p. p) (arg_or (Map.empty ''candidates'') DEFAULT_CANDIDATES_PATH)))
   \<and> files (main (\<lambda>p. p)
               [''data/production_candidates.json'' \<mapsto> Parsed (JObject []),
                ''docs/data/productions.json'' \<mapsto> Parsed (JArray [])] [])
       = [''data/production_candidates.json'' \<mapsto> Parsed (JObject []),
          ''docs/data/productions.json'' \<mapsto> Parsed (JArray [])]
   \<and> exit_code (main (\<lambda>p. p)
               [''data/production_candidates.json'' \<mapsto> Parsed (JObject []),
                ''docs/data/productions.json'' \<mapsto> Parsed (JArray [])] []) = 1"
proof -
  let ?fs = "[''data/production_candidates.json'' \<mapsto> Parsed (JObject []),
              ''docs/data/productions.json'' \<mapsto> Parsed (JArray [])]"
  have h1: "parseArgs [] = (Map.empty, {})" by (simp add: parseArgs_def)
  have h2: "\<not> holds_array (?fs ((\<lambda>p. p) (arg_or (Map.empty ''candidates'') DEFAULT_CANDIDATES_PATH)))"
    by (simp add: arg_or_def DEFAULT_CANDIDATES_PATH_def)
  then have h3: "isl (parseLimit (Map.empty ''limit''))
       \<or> \<not> holds_array (?fs ((\<lambda>p. p) (arg_or (Map.empty ''candidates'') DEFAULT_CANDIDATES_PATH)))
       \<or> \<not> holds_array (?fs ((\<lambda>p. p) (arg_or (Map.empty ''output'') DEFAULT_OUTPUT_PATH)))"
    by blast
  from invalid_input_writes_nothing [OF h1 h3] h1 h2 show ?thesis by blast
qed

lemma run_dry:
  "files (run resolve fs cp op limit True) = fs"
  "failure (run resolve fs cp op limit True) = failure (run resolve fs cp op limit False)"
  "stdout (run resolve fs cp op limit True) =
     stdout (run resolve fs cp op limit False)
       @ (if failure (run resolve fs cp op limit False) = None then [DryRunNotice] else [])"
  by (auto simp: run_def failed_def Let_def split: sum.splits json.splits)

text \<open>
  Claim C8. With the flag \<^verbatim>\<open>--dry-run\<close> no file is written, whatever the input and the
  counts. The run fails exactly when the run without the flag fails, and it prints the lines
  of that run (candidates found and processed, created, updated, themes unchanged, theme
  mismatches), followed on success by the notice that nothing was written.
\<close>

theorem dry_run_writes_nothing:
  assumes "parseArgs argv = (args, flags)" and "''dry-run'' \<in> flags"
  shows "files (main resolve fs argv) = fs
       \<and> failure (main resolve fs argv)
           = failure (main_parsed resolve fs args (flags - {''dry-run''}))
       \<and> stdout (main resolve fs argv)
           = stdout (main_parsed resolve fs args (flags - {''dry-run''}))
             @ (if failure (main_parsed resolve fs args (flags - {''dry-run''})) = None
                then [DryRunNotice] else [])"
proof (cases "parseLimit (args ''limit'')")
  case (Inl e)
  with assms show ?thesis by (simp add: main_def main_parsed_def failed_def)
next
  case (Inr limit)
  with assms show ?thesis by (simp add: main_def main_parsed_def run_dry)
qed

theorem dry_run_writes_nothing_witness:
  "parseArgs [''--dry-run''] = (Map.empty, {''dry-run''})
   \<and> files (main (\<lambda>p. p)
               [''data/production_candidates.json'' \<mapsto> Parsed (JArray [JObject [(''id'', JString ''b'')]]),
                ''docs/data/productions.json'' \<mapsto> Parsed (JArray [])] [''--dry-run''])
       = [''data/production_candidates.json'' \<mapsto> Parsed (JArray [JObject [(''id'', JString ''b'')]]),
          ''docs/data/productions.json'' \<mapsto> Parsed (JArray [])]
   \<and> stdout (main (\<lambda>p. p)
               [''data/production_candidates.json'' \<mapsto> Parsed (JArray [JObject [(''id'', JString ''b'')]]),
                ''docs/data/productions.json'' \<mapsto> Parsed (JArray [])] [''--dry-run''])
       = [CandidatesFound 1, ProductionsCreated 1, ProductionsUpdated 0,
          ExistingThemesUnchanged 0, DryRunNotice]"
proof -
  let ?fs = "[''data/production_candidates.json'' \<mapsto> Parsed (JArray [JObject [(''id'', JString ''b'')]]),
              ''docs/data/productions.json'' \<mapsto> Parsed (JArray [])]"
  have h1: "parseArgs [''--dry-run''] = (Map.empty, {''dry-run''})"
    by (simp add: parseArgs_def starts_with_dashes_def)
  have h2: "''dry-run'' \<in> {''dry-run''}" by simp
  have wet: "main_parsed (\<lambda>p. p) ?fs Map.empty ({''dry-run''} - {''dry-run''})
     = \<lparr>stdout = [CandidatesFound 1, ProductionsCreated 1, ProductionsUpdated 0,
          ExistingThemesUnchanged 0], failure = None,
        files = ?fs(''docs/data/productions.json'' \<mapsto> Parsed (JArray [JObject [(''id'', JString ''b'')]]))\<rparr>"
    by (simp add: main_parsed_def run_def parseLimit_def arg_or_def DEFAULT_CANDIDATES_PATH_def
        DEFAULT_OUTPUT_PATH_def readJson_def report_def eval_defs)
  from dry_run_writes_nothing [OF h1 h2, of "\<lambda>p. p" ?fs] h1 wet show ?thesis by simp
qed

lemma digit_not_white_space: "is_digit c \<Longrightarrow> \<not> is_white_space c \<and> c \<noteq> CHR ''-'' \<and> c \<noteq> CHR ''+''"
  by (auto simp: is_digit_def digit_chars_def is_white_space_def)

lemma takeWhile_all: "list_all P xs \<Longrightarrow> takeWhile P xs = xs"
  by (induction xs) auto

lemma parseInt_show_nat: "parseInt (show_nat n) = Some (int n)"
proof -
  obtain c s where cs: "show_nat n = c # s"
    using show_nat_not_Nil [of n] by (cases "show_nat n") auto
  with show_nat_hd_digit [of n] have d: "is_digit c" by simp
  note nw = digit_not_white_space [OF d]
  have tw: "takeWhile is_digit (c # s) = c # s"
    using show_nat_all_digits [of n] cs by (simp add: takeWhile_all)
  have "digits_value (c # s) = n" using digits_value_show_nat [of n] cs by simp
  with nw tw cs show ?thesis by (simp add: parseInt_def Let_def)
qed

lemma parseLimit_show_nat: "0 < n \<Longrightarrow> parseLimit (Some (show_nat n)) = Inr (Some n)"
  by (simp add: parseLimit_def parseInt_show_nat)







section \<open>The index\<close>

lemma position_of_SomeD:
  "position_of ps k = Some i \<Longrightarrow> i < length ps \<and> record_id (ps ! i) = Some k"
proof (induction ps arbitrary: i)
  case Nil
  then show ?case by simp
next
  case (Cons p ps)
  then show ?case by (cases "position_of ps k") (auto split: if_splits)
qed

lemma position_of_None: "position_of ps k = None \<longleftrightarrow> (\<forall>p\<in>set ps. record_id p \<noteq> Some k)"
  by (induction ps) (auto split: option.splits)

lemma position_of_last:
  "position_of ps k = Some i \<Longrightarrow> i < j \<Longrightarrow> j < length ps \<Longrightarrow> record_id (ps ! j) \<noteq> Some k"
proof (induction ps arbitrary: i j)
  case Nil
  then show ?case by simp
next
  case (Cons p ps)
  show ?case
  proof (cases "position_of ps k")
    case None
    with Cons.prems have "j - 1 < length ps" "0 < j" by (auto split: if_splits)
    with None show ?thesis by (cases j) (auto simp: position_of_None)
  next
    case (Some i')
    with Cons.prems have i: "i = Suc i'" by simp
    with Cons.prems obtain j' where j: "j = Suc j'" by (cases j) auto
    with Cons.IH [OF Some, of j'] Cons.prems i show ?thesis by simp
  qed
qed

lemma position_of_append:
  "position_of (xs @ ys) k =
     (case position_of ys k of Some j \<Rightarrow> Some (length xs + j) | None \<Rightarrow> position_of xs k)"
  by (induction xs) (auto split: option.splits)

lemma record_id_primitive: "record_id p = Some k \<Longrightarrow> is_primitive k \<and> truthy k \<and> get_named p ''id'' = Some k"
  by (auto simp: record_id_def split: option.splits if_splits)

lemma position_of_not_primitive: "\<not> is_primitive k \<Longrightarrow> position_of ps k = None"
  by (auto simp: position_of_None dest: record_id_primitive)

lemma buildProductionIndex_result:
  "buildProductionIndex n ps m = Inr idx \<Longrightarrow>
     idx k = (case position_of ps k of Some j \<Rightarrow> Some (n + j) | None \<Rightarrow> m k)"
proof (induction ps arbitrary: n m)
  case Nil
  then show ?case by simp
next
  case (Cons p ps)
  from Cons.prems have nn: "p \<noteq> JNull" by (auto split: if_splits)
  show ?case
  proof (cases "get_named p ''id''")
    case None
    with Cons.prems nn have "buildProductionIndex (Suc n) ps m = Inr idx" by simp
    from Cons.IH [OF this] None show ?thesis
      by (auto simp: record_id_def split: option.splits)
  next
    case (Some ident)
    show ?thesis
    proof (cases "truthy ident")
      case False
      with Some Cons.prems nn have "buildProductionIndex (Suc n) ps m = Inr idx" by simp
      from Cons.IH [OF this] Some False show ?thesis
        by (auto simp: record_id_def split: option.splits)
    next
      case True
      with Some Cons.prems nn
      have "buildProductionIndex (Suc n) ps (index_set m ident n) = Inr idx" by simp
      from Cons.IH [OF this] Some True show ?thesis
        by (auto simp: record_id_def index_set_def split: option.splits)
    qed
  qed
qed

lemma buildProductionIndex_ok:
  "JNull \<notin> set ps \<Longrightarrow> \<exists>idx. buildProductionIndex n ps m = Inr idx"
  by (induction ps arbitrary: n m) (auto split: option.splits)

lemma buildProductionIndex_no_null:
  "buildProductionIndex n ps m = Inr idx \<Longrightarrow> JNull \<notin> set ps"
  by (induction ps arbitrary: n m) (auto split: option.splits if_splits)

lemma index_get_build:
  assumes "buildProductionIndex 0 ps Map.empty = Inr idx"
  shows "index_get idx k = position_of ps k"
proof (cases "is_primitive k")
  case True
  with buildProductionIndex_result [OF assms, of k] show ?thesis
    by (simp add: index_get_def split: option.splits)
next
  case False
  then show ?thesis by (simp add: index_get_def position_of_not_primitive)
qed

section \<open>The loop over the candidates\<close>

lemma mergeCandidate_match_ok:
  assumes "candidate_id c = Some ident" "index_get idx ident = Some i"
    and "mergeCandidate idx c st = Inr st'"
  shows "i < length (productions st) \<and> productions st ! i \<noteq> JNull
       \<and> (\<exists>ts. or_empty (get_named (productions st ! i) ''themes'') = JArray ts)"
  using mergeCandidate_match_error [OF assms(1,2)] assms(3) by fastforce

lemma mergeCandidate_match_result:
  assumes "candidate_id c = Some ident" "index_get idx ident = Some i"
    and "mergeCandidate idx c st = Inr st'"
  shows "productions st' = (productions st)[i := merge_into (productions st ! i) c]"
    and "createdCount st' = createdCount st"
    and "themesUnchangedCount st' = themesUnchangedCount st + 1"
    and "updatedCount st' = (if merge_into (productions st ! i) c = productions st ! i
                              then updatedCount st else updatedCount st + 1)"
proof -
  from mergeCandidate_match_ok [OF assms] obtain ts where
    ok: "i < length (productions st)" "productions st ! i \<noteq> JNull"
        "or_empty (get_named (productions st ! i) ''themes'') = JArray ts" by blast
  from mergeCandidate_match [OF assms(1,2) ok] assms(3)
  show "productions st' = (productions st)[i := merge_into (productions st ! i) c]"
    and "createdCount st' = createdCount st"
    and "themesUnchangedCount st' = themesUnchangedCount st + 1"
    and "updatedCount st' = (if merge_into (productions st ! i) c = productions st ! i
                              then updatedCount st else updatedCount st + 1)"
    by auto
qed

lemma mergeAll_characterised:
  assumes idx: "\<And>k. index_get idx k = position_of ps k"
  shows "mergeAll idx cs st0 = Inr st \<Longrightarrow> productions st0 = base @ cr \<Longrightarrow> length base = length ps \<Longrightarrow>
     productions st =
        map (\<lambda>i. foldl merge_into (base ! i) (filter (\<lambda>c. candidate_position ps c = Some i) cs))
          [0..<length ps]
        @ cr @ filter (is_new ps) cs
     \<and> createdCount st = createdCount st0 + length (filter (is_new ps) cs)
     \<and> themesUnchangedCount st
         = themesUnchangedCount st0 + length (filter (\<lambda>c. candidate_position ps c \<noteq> None) cs)"
proof (induction cs arbitrary: st0 base cr)
  case Nil
  from Nil(3) have "map ((!) base) [0..<length ps] = base" by (metis map_nth)
  with Nil show ?case by simp
next
  case (Cons c cs)
  from Cons.prems(1) obtain st1 where
    step: "mergeCandidate idx c st0 = Inr st1" and rest: "mergeAll idx cs st1 = Inr st"
    by (auto split: sum.splits)
  show ?case
  proof (cases "candidate_id c")
    case None
    with step have "st1 = st0" by (simp add: mergeCandidate_skip)
    with Cons.IH [OF rest, of base cr] Cons.prems(2,3) None show ?thesis
      by (simp add: candidate_position_def is_new_def)
  next
    case (Some ident)
    show ?thesis
    proof (cases "position_of ps ident")
      case None
      with idx have "index_get idx ident = None" by simp
      from mergeCandidate_new [OF Some this, of st0] step
      have st1: "st1 = st0\<lparr>productions := productions st0 @ [c], createdCount := createdCount st0 + 1\<rparr>"
        by simp
      with Cons.prems(2) have "productions st1 = base @ (cr @ [c])" by simp
      from Cons.IH [OF rest this Cons.prems(3)] st1 Some None show ?thesis
        by (simp add: candidate_position_def is_new_def)
    next
      case (Some i)
      note pos = this
      with idx have ig: "index_get idx ident = Some i" by simp
      from position_of_SomeD [OF pos] Cons.prems(3) have i: "i < length base" by simp
      note res = mergeCandidate_match_result [OF \<open>candidate_id c = Some ident\<close> ig step]
      from res(1) Cons.prems(2) i
      have p1: "productions st1 = base[i := merge_into (base ! i) c] @ cr"
        by (simp add: list_update_append1 nth_append)
      have l1: "length (base[i := merge_into (base ! i) c]) = length ps"
        using Cons.prems(3) by simp
      have cp: "candidate_position ps c = Some i"
        using \<open>candidate_id c = Some ident\<close> pos by (simp add: candidate_position_def)
      have nn: "\<not> is_new ps c" using cp by (simp add: is_new_def)
      have m: "map (\<lambda>j. foldl merge_into (base[i := merge_into (base ! i) c] ! j)
                   (filter (\<lambda>c. candidate_position ps c = Some j) cs)) [0..<length ps]
             = map (\<lambda>j. foldl merge_into (base ! j)
                   (filter (\<lambda>c. candidate_position ps c = Some j) (c # cs))) [0..<length ps]"
      proof (rule map_cong [OF refl])
        fix j assume "j \<in> set [0..<length ps]"
        then have "j < length base" using Cons.prems(3) by simp
        then show "foldl merge_into (base[i := merge_into (base ! i) c] ! j)
                   (filter (\<lambda>c. candidate_position ps c = Some j) cs)
             = foldl merge_into (base ! j)
                   (filter (\<lambda>c. candidate_position ps c = Some j) (c # cs))"
          using cp i by (cases "j = i") simp_all
      qed
      from Cons.IH [OF rest p1 l1] res(2,3) m cp nn show ?thesis by simp
    qed
  qed
qed

lemma merge_characterised:
  assumes "merge limit candidates existing = Inr st"
  shows "productions st =
        map (\<lambda>i. foldl merge_into (existing ! i)
                  (filter (\<lambda>c. candidate_position existing c = Some i)
                     (limitedCandidates limit candidates)))
          [0..<length existing]
        @ filter (is_new existing) (limitedCandidates limit candidates)"
    and "createdCount st = length (filter (is_new existing) (limitedCandidates limit candidates))"
    and "themesUnchangedCount st
         = length (filter (\<lambda>c. candidate_position existing c \<noteq> None)
                     (limitedCandidates limit candidates))"
proof -
  from assms obtain idx where idx: "buildProductionIndex 0 existing Map.empty = Inr idx"
    and run: "mergeAll idx (limitedCandidates limit candidates) (initial_state existing) = Inr st"
    by (auto simp: merge_def split: sum.splits)
  have ig: "\<And>k. index_get idx k = position_of existing k" by (rule index_get_build [OF idx])
  have "productions (initial_state existing) = existing @ []" by (simp add: initial_state_def)
  from mergeAll_characterised [where ps = existing, OF ig run this refl]
  show "productions st =
        map (\<lambda>i. foldl merge_into (existing ! i)
                  (filter (\<lambda>c. candidate_position existing c = Some i)
                     (limitedCandidates limit candidates)))
          [0..<length existing]
        @ filter (is_new existing) (limitedCandidates limit candidates)"
    and "createdCount st = length (filter (is_new existing) (limitedCandidates limit candidates))"
    and "themesUnchangedCount st
         = length (filter (\<lambda>c. candidate_position existing c \<noteq> None)
                     (limitedCandidates limit candidates))"
    by (simp_all add: initial_state_def)
qed

lemma or_empty_themes_merge_into:
  "or_empty (get_named (merge_into e c) ''themes'') = or_empty (get_named e ''themes'')"
  by (simp add: themes_merge_into truthy_or_empty)

lemma themes_foldl_merge_into:
  "cs \<noteq> [] \<Longrightarrow>
     get_named (foldl merge_into e cs) ''themes'' = Some (or_empty (get_named e ''themes''))"
proof (induction cs arbitrary: e)
  case Nil
  then show ?case by simp
next
  case (Cons c cs)
  show ?case
  proof (cases "cs = []")
    case True
    then show ?thesis by (simp add: themes_merge_into)
  next
    case False
    from Cons.IH [OF False, of "merge_into e c"] show ?thesis
      by (simp add: or_empty_themes_merge_into)
  qed
qed

text \<open>
  Claim C1 as stated fails when the existing record has no truthy \<^verbatim>\<open>themes\<close>: here its
  \<^verbatim>\<open>themes\<close> is \<^verbatim>\<open>null\<close>, and the record in the output has the empty array instead.
\<close>

theorem falsy_themes_replaced_by_empty:
  "merge None
     [JObject [(''id'', JString ''a''), (''themes'', JArray [JString ''y''])]]
     [JObject [(''id'', JString ''a''), (''themes'', JNull)]]
   = Inr \<lparr>productions = [JObject [(''id'', JString ''a''), (''themes'', JArray [])]],
          createdCount = 0, updatedCount = 1, themesUnchangedCount = 1,
          themeMismatchCount = 1\<rparr>"
  by (simp add: eval_defs)

text \<open>
  Claim C1, as the code has it. Let the merge end without error, for any limit. For every
  candidate that the loop treats and whose id is the id of an existing record, the record at
  the position of that id in the output has a \<^verbatim>\<open>themes\<close> field, and it is the \<^verbatim>\<open>themes\<close> of
  the original existing record when that is truthy, and the empty array when the original
  record has no \<^verbatim>\<open>themes\<close> or a falsy one; the \<^verbatim>\<open>themes\<close> of the candidate plays no part.
  An existing record that no treated candidate matches is left as it is.
\<close>

theorem themes_protected:
  assumes "merge limit candidates existing = Inr st"
    and "c \<in> set (limitedCandidates limit candidates)"
    and "candidate_id c = Some ident" and "position_of existing ident = Some i"
  shows "i < length existing \<and> record_id (existing ! i) = Some ident
       \<and> get_named (productions st ! i) ''themes''
           = Some (or_empty (get_named (existing ! i) ''themes''))
       \<and> (\<forall>j<length existing.
             (\<forall>c'\<in>set (limitedCandidates limit candidates). candidate_position existing c' \<noteq> Some j)
             \<longrightarrow> productions st ! j = existing ! j)"
proof -
  let ?cs = "limitedCandidates limit candidates"
  note pos = position_of_SomeD [OF assms(4)]
  have cp: "candidate_position existing c = Some i"
    using assms(3,4) by (simp add: candidate_position_def)
  with assms(2) have ne: "filter (\<lambda>c. candidate_position existing c = Some i) ?cs \<noteq> []"
    by (auto simp: filter_empty_conv)
  have nth: "\<And>j. j < length existing \<Longrightarrow> productions st ! j
        = foldl merge_into (existing ! j) (filter (\<lambda>c. candidate_position existing c = Some j) ?cs)"
    by (simp add: merge_characterised(1) [OF assms(1)] nth_append)
  have untouched: "\<forall>j<length existing.
             (\<forall>c'\<in>set ?cs. candidate_position existing c' \<noteq> Some j)
             \<longrightarrow> productions st ! j = existing ! j"
  proof (intro allI impI)
    fix j assume j: "j < length existing"
      and "\<forall>c'\<in>set ?cs. candidate_position existing c' \<noteq> Some j"
    then have "filter (\<lambda>c. candidate_position existing c = Some j) ?cs = []"
      by (simp add: filter_empty_conv)
    with nth [OF j] show "productions st ! j = existing ! j" by simp
  qed
  from nth [OF pos [THEN conjunct1]] themes_foldl_merge_into [OF ne] pos untouched
  show ?thesis by simp
qed

theorem themes_protected_witness:
  "merge None
     [JObject [(''id'', JString ''a''), (''themes'', JArray [JString ''y'']),
               (''city'', JString ''LA'')],
      JObject [(''id'', JString ''b''), (''themes'', JArray [JString ''z''])]]
     [JObject [(''id'', JString ''a''), (''themes'', JArray [JString ''x'']),
               (''city'', JString ''NY'')]]
   = Inr \<lparr>productions =
          [JObject [(''id'', JString ''a''), (''themes'', JArray [JString ''x'']),
                    (''city'', JString ''LA'')],
           JObject [(''id'', JString ''b''), (''themes'', JArray [JString ''z''])]],
        createdCount = 1, updatedCount = 1, themesUnchangedCount = 1,
        themeMismatchCount = 1\<rparr>
   \<and> candidate_id (JObject [(''id'', JString ''a''), (''themes'', JArray [JString ''y'']),
               (''city'', JString ''LA'')]) = Some (JString ''a'')
   \<and> position_of [JObject [(''id'', JString ''a''), (''themes'', JArray [JString ''x'']),
               (''city'', JString ''NY'')]] (JString ''a'') = Some 0
   \<and> get_named (JObject [(''id'', JString ''a''), (''themes'', JArray [JString ''x'']),
                    (''city'', JString ''LA'')]) ''themes'' = Some (JArray [JString ''x''])"
proof -
  let ?c = "JObject [(''id'', JString ''a''), (''themes'', JArray [JString ''y'']),
               (''city'', JString ''LA'')]"
  let ?cs = "[?c, JObject [(''id'', JString ''b''), (''themes'', JArray [JString ''z''])]]"
  let ?ps = "[JObject [(''id'', JString ''a''), (''themes'', JArray [JString ''x'']),
               (''city'', JString ''NY'')]]"
  let ?st = "\<lparr>productions =
          [JObject [(''id'', JString ''a''), (''themes'', JArray [JString ''x'']),
                    (''city'', JString ''LA'')],
           JObject [(''id'', JString ''b''), (''themes'', JArray [JString ''z''])]],
        createdCount = 1, updatedCount = 1, themesUnchangedCount = 1,
        themeMismatchCount = 1\<rparr>"
  have h1: "merge None ?cs ?ps = Inr ?st" by (simp add: eval_defs)
  have h2: "?c \<in> set (limitedCandidates None ?cs)" by (simp add: limitedCandidates_def)
  have h3: "candidate_id ?c = Some (JString ''a'')" by (simp add: candidate_id_def)
  have h4: "position_of ?ps (JString ''a'') = Some 0" by (simp add: record_id_def)
  from themes_protected [OF h1 h2 h3 h4] h1 h3 h4 show ?thesis by simp
qed



text \<open>
  Claim C4 does not hold of the code. The index is built once, from the existing
  productions, and a candidate that is appended is not entered into it: a second candidate
  with the same new id is appended as well, and the output holds the id twice.
\<close>

theorem duplicate_new_candidates_both_appended:
  "merge None
     [JObject [(''id'', JString ''b'')], JObject [(''id'', JString ''b'')]]
     []
   = Inr \<lparr>productions = [JObject [(''id'', JString ''b'')], JObject [(''id'', JString ''b'')]],
          createdCount = 2, updatedCount = 0, themesUnchangedCount = 0,
          themeMismatchCount = 0\<rparr>"
  by (simp add: eval_defs)

section \<open>Objects in canonical form and merging twice\<close>

lemma array_index_SomeD: "array_index k = Some n \<Longrightarrow> k = show_nat n"
  by (auto simp: array_index_def split: if_splits)

lemma array_index_inj: "array_index k = Some n \<Longrightarrow> array_index k' = Some n \<Longrightarrow> k = k'"
  by (auto dest!: array_index_SomeD)

lemma map_fst_replace_value: "map fst (replace_value k v kvs) = map fst kvs"
  by (induction kvs) auto

lemma map_of_eq_None_keys: "map_of kvs k = None \<longleftrightarrow> k \<notin> set (map fst kvs)"
  by (simp add: map_of_eq_None_iff)

lemma insert_index_split:
  "\<exists>xs ys. kvs = xs @ ys \<and> insert_index n k v kvs = xs @ (k, v) # ys"
proof (induction kvs)
  case Nil
  then show ?case by simp
next
  case (Cons kv kvs)
  obtain k' v' where kv: "kv = (k', v')" by (cases kv)
  from Cons obtain xs ys where s: "kvs = xs @ ys" "insert_index n k v kvs = xs @ (k, v) # ys" by blast
  show ?case
  proof (cases "\<exists>m. array_index k' = Some m \<and> m < n")
    case True
    with s kv have "kv # kvs = (kv # xs) @ ys \<and> insert_index n k v (kv # kvs) = (kv # xs) @ (k, v) # ys"
      by auto
    then show ?thesis by blast
  next
    case False
    with kv have "kv # kvs = [] @ (kv # kvs) \<and> insert_index n k v (kv # kvs) = [] @ (k, v) # (kv # kvs)"
      by (auto split: option.splits)
    then show ?thesis by blast
  qed
qed

lemma set_keys_obj_put: "set (map fst (obj_put kvs k v)) = insert k (set (map fst kvs))"
proof (cases "map_of kvs k")
  case None
  show ?thesis
  proof (cases "array_index k")
    case None
    with \<open>map_of kvs k = None\<close> show ?thesis by (simp add: obj_put_def)
  next
    case (Some n)
    from insert_index_split [of kvs n k v] obtain xs ys where
      "kvs = xs @ ys" "insert_index n k v kvs = xs @ (k, v) # ys" by blast
    with Some \<open>map_of kvs k = None\<close> show ?thesis by (auto simp: obj_put_def)
  qed
next
  case (Some w)
  then have "k \<in> set (map fst kvs)" by (metis map_of_eq_None_keys option.distinct(1))
  with Some show ?thesis by (auto simp: obj_put_def map_fst_replace_value)
qed

lemma distinct_keys_obj_put:
  "distinct (map fst kvs) \<Longrightarrow> distinct (map fst (obj_put kvs k v))"
proof (cases "map_of kvs k")
  case None
  assume d: "distinct (map fst kvs)"
  from None have nk: "k \<notin> set (map fst kvs)" by (simp add: map_of_eq_None_keys)
  show ?thesis
  proof (cases "array_index k")
    case None
    with \<open>map_of kvs k = None\<close> d nk show ?thesis by (simp add: obj_put_def)
  next
    case (Some n)
    from insert_index_split [of kvs n k v] obtain xs ys where
      "kvs = xs @ ys" "insert_index n k v kvs = xs @ (k, v) # ys" by blast
    with Some \<open>map_of kvs k = None\<close> d nk show ?thesis by (auto simp: obj_put_def)
  qed
next
  case (Some w)
  assume "distinct (map fst kvs)"
  with Some show ?thesis by (simp add: obj_put_def map_fst_replace_value)
qed

lemma keys_obj_put_present:
  "k \<in> set (map fst kvs) \<Longrightarrow> map fst (obj_put kvs k v) = map fst kvs"
  by (simp add: obj_put_def map_fst_replace_value map_of_eq_None_keys)

lemma keys_ordered_Cons:
  "keys_ordered (k # ks) = ((case ks of [] \<Rightarrow> True | k2 # _ \<Rightarrow> key_before k k2) \<and> keys_ordered ks)"
  by (cases ks) simp_all

lemma keys_ordered_snoc:
  "keys_ordered (ks @ [k]) = (keys_ordered ks \<and> (ks = [] \<or> key_before (last ks) k))"
proof (induction ks)
  case Nil
  then show ?case by simp
next
  case (Cons a ks)
  then show ?case by (cases ks) auto
qed

lemma key_before_plain: "array_index k = None \<Longrightarrow> key_before x k"
  by (simp add: key_before_def split: option.splits)

lemma key_before_index:
  "array_index k = Some n \<Longrightarrow> key_before x k = (\<exists>m. array_index x = Some m \<and> m < n)"
  by (auto simp: key_before_def split: option.splits)

lemma index_before:
  "array_index k = Some n \<Longrightarrow> key_before k x = (case array_index x of Some m \<Rightarrow> n < m | None \<Rightarrow> True)"
  by (simp add: key_before_def)

lemma keys_ordered_insert_index:
  assumes "array_index k = Some n" "k \<notin> set (map fst kvs)" "keys_ordered (map fst kvs)"
  shows "keys_ordered (map fst (insert_index n k v kvs))"
  using assms(2,3)
proof (induction kvs)
  case Nil
  then show ?case by simp
next
  case (Cons kv kvs)
  obtain k' v' where kv: "kv = (k', v')" by (cases kv)
  from Cons.prems kv have nk: "k' \<noteq> k" "k \<notin> set (map fst kvs)" by auto
  from Cons.prems have ord: "keys_ordered (map fst kvs)" by (simp add: keys_ordered_Cons)
  note IH = Cons.IH [OF nk(2) ord]
  show ?case
  proof (cases "array_index k'")
    case None
    with kv Cons.prems assms(1) show ?thesis by (simp add: index_before)
  next
    case (Some m)
    show ?thesis
    proof (cases "m < n")
      case False
      from Some assms(1) nk(1) have "m \<noteq> n" using array_index_inj by blast
      with False have "n < m" by simp
      with kv Some Cons.prems assms(1) show ?thesis by (simp add: index_before)
    next
      case True
      have first: "case map fst (insert_index n k v kvs) of [] \<Rightarrow> True | k2 # _ \<Rightarrow> key_before k' k2"
      proof (cases kvs)
        case Nil
        with True Some assms(1) show ?thesis by (simp add: index_before)
      next
        case (Cons kv2 kvs2)
        obtain k2 v2 where kv2: "kv2 = (k2, v2)" by (cases kv2)
        from Cons.prems(2) kv Cons kv2 \<open>kvs = kv2 # kvs2\<close> have kb: "key_before k' k2" by simp
        show ?thesis
        proof (cases "\<exists>m2. array_index k2 = Some m2 \<and> m2 < n")
          case True
          with Cons kv2 kb show ?thesis by auto
        next
          case False
          with Cons kv2 have "insert_index n k v kvs = (k, v) # kvs" by (auto split: option.splits)
          with \<open>m < n\<close> Some assms(1) show ?thesis by (simp add: index_before)
        qed
      qed
      from True Some kv have "insert_index n k v (kv # kvs) = kv # insert_index n k v kvs" by simp
      with first IH kv show ?thesis by (simp add: keys_ordered_Cons)
    qed
  qed
qed

lemma canonical_obj_put: "canonical kvs \<Longrightarrow> canonical (obj_put kvs k v)"
proof -
  assume c: "canonical kvs"
  then have d: "distinct (map fst (obj_put kvs k v))"
    by (simp add: canonical_def distinct_keys_obj_put)
  have "keys_ordered (map fst (obj_put kvs k v))"
  proof (cases "k \<in> set (map fst kvs)")
    case True
    with c show ?thesis by (simp add: keys_obj_put_present canonical_def)
  next
    case False
    then have n: "map_of kvs k = None" by (simp add: map_of_eq_None_keys)
    show ?thesis
    proof (cases "array_index k")
      case None
      with n c show ?thesis
        by (simp add: obj_put_def canonical_def keys_ordered_snoc key_before_plain)
    next
      case (Some m)
      with n c keys_ordered_insert_index [OF Some False] show ?thesis
        by (simp add: obj_put_def canonical_def)
    qed
  qed
  with d show ?thesis by (simp add: canonical_def)
qed

lemma obj_assign_Nil: "obj_assign t [] = t"
  by (simp add: obj_assign_def)

lemma obj_assign_Cons: "obj_assign t ((k, v) # s) = obj_assign (obj_put t k v) s"
  by (simp add: obj_assign_def)

lemma canonical_obj_assign: "canonical t \<Longrightarrow> canonical (obj_assign t s)"
  by (induction s arbitrary: t) (auto simp: obj_assign_Nil obj_assign_Cons canonical_obj_put)

lemma canonical_Nil: "canonical []"
  by (simp add: canonical_def)

lemma keys_ordered_before_index:
  "keys_ordered (ks @ k # rest) \<Longrightarrow> array_index k = Some n \<Longrightarrow>
     \<forall>k'\<in>set ks. \<exists>m. array_index k' = Some m \<and> m < n"
proof (induction ks)
  case Nil
  then show ?case by simp
next
  case (Cons k1 ks)
  from Cons.prems have ord: "keys_ordered (ks @ k # rest)" by (simp add: keys_ordered_Cons)
  note IH = Cons.IH [OF ord Cons.prems(2)]
  have "\<exists>m. array_index k1 = Some m \<and> m < n"
  proof (cases ks)
    case Nil
    with Cons.prems show ?thesis by (simp add: key_before_index)
  next
    case (Cons k2 ks2)
    with IH obtain m2 where m2: "array_index k2 = Some m2" "m2 < n" by auto
    from Cons.prems(1) Cons have "key_before k1 k2" by simp
    with m2 show ?thesis by (auto simp: key_before_index)
  qed
  with IH show ?case by simp
qed

lemma insert_index_end:
  "\<forall>k'\<in>set (map fst kvs). \<exists>m. array_index k' = Some m \<and> m < n \<Longrightarrow>
     insert_index n k v kvs = kvs @ [(k, v)]"
  by (induction kvs) auto

lemma obj_put_canonical_snoc:
  assumes "canonical (pre @ [(k, v)])"
  shows "obj_put pre k v = pre @ [(k, v)]"
proof -
  from assms have nk: "k \<notin> set (map fst pre)" and ord: "keys_ordered (map fst pre @ k # [])"
    by (simp_all add: canonical_def)
  then have n: "map_of pre k = None" by (simp add: map_of_eq_None_keys)
  show ?thesis
  proof (cases "array_index k")
    case None
    with n show ?thesis by (simp add: obj_put_def)
  next
    case (Some m)
    from keys_ordered_before_index [OF ord Some] insert_index_end
    have "insert_index m k v pre = pre @ [(k, v)]" by blast
    with Some n show ?thesis by (simp add: obj_put_def)
  qed
qed

lemma canonical_prefix: "canonical (xs @ ys) \<Longrightarrow> canonical xs"
proof (induction ys rule: rev_induct)
  case Nil
  then show ?case by simp
next
  case (snoc y ys)
  from snoc.prems have "canonical ((xs @ ys) @ [y])" by simp
  then have "canonical (xs @ ys)"
    by (simp add: canonical_def keys_ordered_snoc del: append_assoc)
  with snoc.IH show ?case by simp
qed

lemma obj_assign_canonical: "canonical (pre @ kvs) \<Longrightarrow> obj_assign pre kvs = pre @ kvs"
proof (induction kvs arbitrary: pre)
  case Nil
  then show ?case by (simp add: obj_assign_Nil)
next
  case (Cons kv kvs)
  obtain k v where kv: "kv = (k, v)" by (cases kv)
  from Cons.prems kv have c: "canonical ((pre @ [(k, v)]) @ kvs)" by simp
  from canonical_prefix [OF c] have "obj_put pre k v = pre @ [(k, v)]"
    by (rule obj_put_canonical_snoc)
  with Cons.IH [OF c] kv show ?case by (simp add: obj_assign_Cons)
qed

lemma obj_assign_empty_canonical: "canonical kvs \<Longrightarrow> obj_assign [] kvs = kvs"
  using obj_assign_canonical [of "[]" kvs] by simp

lemma keys_obj_assign_present:
  "set (map fst s) \<subseteq> set (map fst t) \<Longrightarrow> map fst (obj_assign t s) = map fst t"
proof (induction s arbitrary: t)
  case Nil
  then show ?case by (simp add: obj_assign_Nil)
next
  case (Cons kv s)
  obtain k v where kv: "kv = (k, v)" by (cases kv)
  with Cons.prems have k: "k \<in> set (map fst t)" and s: "set (map fst s) \<subseteq> set (map fst t)" by auto
  from k have "map fst (obj_put t k v) = map fst t" by (rule keys_obj_put_present)
  with Cons.IH [of "obj_put t k v"] s kv show ?case by (simp add: obj_assign_Cons)
qed

lemma map_of_obj_assign:
  "distinct (map fst s) \<Longrightarrow>
     map_of (obj_assign t s) k = (case map_of s k of Some v \<Rightarrow> Some v | None \<Rightarrow> map_of t k)"
proof (induction s arbitrary: t)
  case Nil
  then show ?case by (simp add: obj_assign_Nil)
next
  case (Cons kv s)
  obtain k1 v1 where kv: "kv = (k1, v1)" by (cases kv)
  with Cons.prems have d: "distinct (map fst s)" and nk: "map_of s k1 = None"
    by (simp_all add: map_of_eq_None_keys)
  from Cons.IH [OF d, of "obj_put t k1 v1"] kv nk show ?case
    by (auto simp: obj_assign_Cons map_of_obj_put split: option.splits)
qed

lemma keys_obj_put: "fst ` set (obj_put kvs k v) = insert k (fst ` set kvs)"
  using set_keys_obj_put [of kvs k v] by simp

lemma keys_obj_assign: "fst ` set (obj_assign t s) = fst ` set t \<union> fst ` set s"
proof (induction s arbitrary: t)
  case Nil
  then show ?case by (simp add: obj_assign_Nil)
next
  case (Cons kv s)
  obtain k v where kv: "kv = (k, v)" by (cases kv)
  from Cons.IH [of "obj_put t k v"] kv show ?case
    by (simp add: obj_assign_Cons keys_obj_put)
qed

lemma alist_eqI:
  "distinct (map fst xs) \<Longrightarrow> map fst xs = map fst ys \<Longrightarrow> (\<And>k. map_of xs k = map_of ys k) \<Longrightarrow> xs = ys"
proof (induction xs arbitrary: ys)
  case Nil
  then show ?case by simp
next
  case (Cons x xs)
  obtain k v where x: "x = (k, v)" by (cases x)
  from Cons.prems(2) x obtain v' ys' where ys: "ys = (k, v') # ys'" and keys: "map fst xs = map fst ys'"
    by (cases ys) auto
  from Cons.prems(3) [of k] x ys have v: "v = v'" by simp
  from Cons.prems(1) x have d: "distinct (map fst xs)" and nk: "k \<notin> set (map fst xs)" by simp_all
  have "\<And>k'. map_of xs k' = map_of ys' k'"
  proof -
    fix k'
    show "map_of xs k' = map_of ys' k'"
    proof (cases "k' = k")
      case True
      with nk keys show ?thesis by (simp add: map_of_eq_None_keys [THEN iffD2])
    next
      case False
      with Cons.prems(3) [of k'] x ys show ?thesis by simp
    qed
  qed
  from Cons.IH [OF d keys this] x ys v show ?case by simp
qed

lemma merge_into_settled:
  assumes R: "canonical R" and c: "distinct (map fst ckvs)"
    and keys: "set (map fst ckvs) \<subseteq> set (map fst R)"
    and vals: "\<And>k v. map_of ckvs k = Some v \<Longrightarrow> k \<noteq> ''themes'' \<Longrightarrow> map_of R k = Some v"
    and themes: "map_of R ''themes'' = Some t" and t: "truthy t"
  shows "merge_into (JObject R) (JObject ckvs) = JObject R"
proof -
  have te: "or_empty (get_named (JObject R) ''themes'') = t" using themes t by simp
  have a: "obj_assign [] R = R" using R by (rule obj_assign_empty_canonical)
  let ?A = "obj_assign R ckvs"
  have kA: "map fst ?A = map fst R" using keys by (rule keys_obj_assign_present)
  have "''themes'' \<in> set (map fst R)" using themes by (metis map_of_eq_None_keys option.distinct(1))
  with kA have kP: "map fst (obj_put ?A ''themes'' t) = map fst R"
    by (simp add: keys_obj_put_present)
  have d: "distinct (map fst (obj_put ?A ''themes'' t))" using R kP by (simp add: canonical_def)
  have "obj_put ?A ''themes'' t = R"
  proof (rule alist_eqI [OF d kP])
    fix k
    show "map_of (obj_put ?A ''themes'' t) k = map_of R k"
      using themes vals [of k] by (auto simp: map_of_obj_put map_of_obj_assign [OF c] split: option.splits)
  qed
  with te a show ?thesis by (simp add: merge_into_def merged_record_def)
qed

lemma merge_into_twice:
  assumes "distinct (map fst ckvs)"
  shows "merge_into (merge_into e (JObject ckvs)) (JObject ckvs) = merge_into e (JObject ckvs)"
proof -
  let ?t = "or_empty (get_named e ''themes'')"
  let ?A = "obj_assign (obj_assign [] (own_properties e)) ckvs"
  let ?R = "obj_put ?A ''themes'' ?t"
  have m: "merge_into e (JObject ckvs) = JObject ?R" by (simp add: merge_into_def merged_record_def)
  have R: "canonical ?R" by (intro canonical_obj_put canonical_obj_assign canonical_Nil)
  have keys: "set (map fst ckvs) \<subseteq> set (map fst ?R)"
    by (simp add: keys_obj_put keys_obj_assign) blast
  have vals: "\<And>k v. map_of ckvs k = Some v \<Longrightarrow> k \<noteq> ''themes'' \<Longrightarrow> map_of ?R k = Some v"
    by (simp add: map_of_obj_put map_of_obj_assign [OF assms])
  have themes: "map_of ?R ''themes'' = Some ?t" by (simp add: map_of_obj_put)
  from merge_into_settled [OF R assms keys vals themes truthy_or_empty] m show ?thesis by simp
qed

lemma merge_into_self:
  assumes "canonical ckvs" and "map_of ckvs ''themes'' = Some t" and "truthy t"
  shows "merge_into (JObject ckvs) (JObject ckvs) = JObject ckvs"
proof -
  from assms(1) have d: "distinct (map fst ckvs)" by (simp add: canonical_def)
  show ?thesis by (rule merge_into_settled [OF assms(1) d _ _ assms(2,3)]) simp_all
qed

lemma id_merge_into:
  assumes "distinct (map fst ckvs)" and "map_of ckvs ''id'' = Some ident"
  shows "get_named (merge_into e (JObject ckvs)) ''id'' = Some ident"
  using assms(2) by (simp add: merge_into_def merged_record_def map_of_obj_put map_of_obj_assign [OF assms(1)])

section \<open>Running the merge a second time\<close>

lemma candidate_id_object:
  "candidate_id c = Some ident \<Longrightarrow> \<exists>ckvs. c = JObject ckvs \<and> map_of ckvs ''id'' = Some ident \<and> truthy ident"
  by (cases c) (auto dest!: candidate_id_SomeD)

lemma record_id_candidate:
  "candidate_id c = Some ident \<Longrightarrow> record_id c = (if is_primitive ident then Some ident else None)"
  by (auto simp: record_id_def dest!: candidate_id_SomeD)

lemma record_id_merge_into:
  assumes "candidate_id c = Some ident" "is_js_value c" "is_primitive ident"
  shows "record_id (merge_into e c) = Some ident"
proof -
  from candidate_id_object [OF assms(1)] obtain ckvs where
    c: "c = JObject ckvs" "map_of ckvs ''id'' = Some ident" "truthy ident" by blast
  with assms(2) have "distinct (map fst ckvs)" by (simp add: canonical_def)
  from id_merge_into [OF this c(2)] c assms(3) show ?thesis by (simp add: record_id_def)
qed

lemma record_id_foldl_merge_into:
  "\<forall>c\<in>set cs. candidate_id c = Some ident \<and> is_js_value c \<Longrightarrow> record_id e = Some ident \<Longrightarrow>
     record_id (foldl merge_into e cs) = Some ident"
proof (induction cs arbitrary: e)
  case Nil
  then show ?case by simp
next
  case (Cons c cs)
  from Cons.prems(2) have "is_primitive ident" by (auto dest: record_id_primitive)
  with Cons.prems(1) have "record_id (merge_into e c) = Some ident"
    by (simp add: record_id_merge_into)
  with Cons.IH [of "merge_into e c"] Cons.prems(1) show ?case by simp
qed

lemma candidate_position_SomeD:
  "candidate_position ps c = Some i \<Longrightarrow>
     \<exists>ident. candidate_id c = Some ident \<and> position_of ps ident = Some i
        \<and> i < length ps \<and> record_id (ps ! i) = Some ident"
  by (auto simp: candidate_position_def split: option.splits dest: position_of_SomeD)

lemma record_id_merged_entry:
  assumes "\<forall>c\<in>set cs. is_js_value c" "i < length ps"
  shows "record_id (foldl merge_into (ps ! i) (filter (\<lambda>c. candidate_position ps c = Some i) cs))
           = record_id (ps ! i)"
proof (cases "filter (\<lambda>c. candidate_position ps c = Some i) cs = []")
  case True
  then show ?thesis by simp
next
  case False
  then obtain c0 where c0: "c0 \<in> set cs" "candidate_position ps c0 = Some i"
    by (auto simp: filter_empty_conv)
  from candidate_position_SomeD [OF c0(2)] obtain ident where
    ident: "record_id (ps ! i) = Some ident" by blast
  have "\<forall>c\<in>set (filter (\<lambda>c. candidate_position ps c = Some i) cs).
          candidate_id c = Some ident \<and> is_js_value c"
  proof
    fix c assume "c \<in> set (filter (\<lambda>c. candidate_position ps c = Some i) cs)"
    then have c: "c \<in> set cs" "candidate_position ps c = Some i" by simp_all
    from candidate_position_SomeD [OF c(2)] ident have "candidate_id c = Some ident" by auto
    with assms(1) c(1) show "candidate_id c = Some ident \<and> is_js_value c" by simp
  qed
  from record_id_foldl_merge_into [OF this ident] ident show ?thesis by simp
qed

lemma position_of_cong:
  "map record_id xs = map record_id ys \<Longrightarrow> position_of xs k = position_of ys k"
proof (induction xs arbitrary: ys)
  case Nil
  then show ?case by simp
next
  case (Cons x xs)
  then obtain y ys' where ys: "ys = y # ys'" "record_id x = record_id y" "map record_id xs = map record_id ys'"
    by (cases ys) auto
  with Cons.IH [OF ys(3)] show ?case by simp
qed

lemma distinct_ids_unique:
  "distinct (List.map_filter candidate_id cs) \<Longrightarrow> x \<in> set cs \<Longrightarrow> y \<in> set cs \<Longrightarrow>
     candidate_id x = Some k \<Longrightarrow> candidate_id y = Some k \<Longrightarrow> x = y"
proof (induction cs)
  case Nil
  then show ?case by simp
next
  case (Cons a cs)
  have mem: "\<And>z. z \<in> set cs \<Longrightarrow> candidate_id z = Some k \<Longrightarrow> k \<in> set (List.map_filter candidate_id cs)"
    by (force simp: List.map_filter_def)
  from Cons.prems(1) have d: "distinct (List.map_filter candidate_id cs)"
    by (cases "candidate_id a") (simp_all add: List.map_filter_simps)
  show ?case
  proof (cases "candidate_id a = Some k")
    case True
    with Cons.prems(1) have "k \<notin> set (List.map_filter candidate_id cs)"
      by (simp add: List.map_filter_simps)
    with mem Cons.prems(2-5) show ?thesis by auto
  next
    case False
    with Cons.prems(2-5) have "x \<in> set cs" "y \<in> set cs" by auto
    from Cons.IH [OF d this Cons.prems(4,5)] show ?thesis .
  qed
qed

lemma filter_unique_id:
  assumes "distinct (List.map_filter candidate_id cs)" "x \<in> set cs" "candidate_id x = Some k"
  shows "filter (\<lambda>y. candidate_id y = Some k) cs = [x]"
  using assms
proof (induction cs)
  case Nil
  then show ?case by simp
next
  case (Cons a cs)
  have mem: "\<And>z. z \<in> set cs \<Longrightarrow> candidate_id z = Some k \<Longrightarrow> k \<in> set (List.map_filter candidate_id cs)"
    by (force simp: List.map_filter_def)
  from Cons.prems(1) have d: "distinct (List.map_filter candidate_id cs)"
    by (cases "candidate_id a") (simp_all add: List.map_filter_simps)
  show ?case
  proof (cases "candidate_id a = Some k")
    case True
    with Cons.prems(1) have nk: "k \<notin> set (List.map_filter candidate_id cs)"
      by (simp add: List.map_filter_simps)
    with mem have none: "filter (\<lambda>y. candidate_id y = Some k) cs = []"
      by (auto simp: filter_empty_conv)
    from nk mem Cons.prems(2,3) have "x = a" by auto
    with True none show ?thesis by simp
  next
    case False
    with Cons.prems(2,3) have "x \<in> set cs" by auto
    from Cons.IH [OF d this Cons.prems(3)] False show ?thesis by simp
  qed
qed

lemma merge_into_object: "\<exists>kvs. merge_into e c = JObject kvs"
  by (simp add: merge_into_def merged_record_def)

lemma foldl_merge_into_object: "cs \<noteq> [] \<Longrightarrow> \<exists>kvs. foldl merge_into e cs = JObject kvs"
proof (induction cs arbitrary: e)
  case Nil
  then show ?case by simp
next
  case (Cons c cs)
  show ?case
  proof (cases "cs = []")
    case True
    then show ?thesis using merge_into_object [of e c] by simp
  next
    case False
    from Cons.IH [OF False, of "merge_into e c"] show ?thesis by simp
  qed
qed

lemma mergeAll_themes_arrays:
  assumes idx: "\<And>k. index_get idx k = position_of ps k"
  shows "mergeAll idx cs st0 = Inr st \<Longrightarrow> length ps \<le> length (productions st0) \<Longrightarrow>
     c \<in> set cs \<Longrightarrow> candidate_position ps c = Some i \<Longrightarrow>
     \<exists>ts. or_empty (get_named (productions st0 ! i) ''themes'') = JArray ts"
proof (induction cs arbitrary: st0)
  case Nil
  then show ?case by simp
next
  case (Cons c0 cs)
  from Cons.prems(1) obtain st1 where
    step: "mergeCandidate idx c0 st0 = Inr st1" and rest: "mergeAll idx cs st1 = Inr st"
    by (auto split: sum.splits)
  from candidate_position_SomeD [OF Cons.prems(4)] obtain ident where
    ident: "candidate_id c = Some ident" "position_of ps ident = Some i" "i < length ps" by blast
  show ?case
  proof (cases "c = c0")
    case True
    from ident idx have "index_get idx ident = Some i" by simp
    from mergeCandidate_match_ok [OF _ this, of c0 st0 st1] ident(1) True step
    show ?thesis by blast
  next
    case False
    with Cons.prems(3) have c: "c \<in> set cs" by simp
    show ?thesis
    proof (cases "candidate_id c0")
      case None
      with step have "st1 = st0" by (simp add: mergeCandidate_skip)
      with Cons.IH [OF rest _ c Cons.prems(4)] Cons.prems(2) show ?thesis by simp
    next
      case (Some ident0)
      show ?thesis
      proof (cases "position_of ps ident0")
        case None
        with idx have "index_get idx ident0 = None" by simp
        from mergeCandidate_new [OF Some this, of st0] step
        have st1: "productions st1 = productions st0 @ [c0]" by auto
        with Cons.prems(2) have "length ps \<le> length (productions st1)" by simp
        from Cons.IH [OF rest this c Cons.prems(4)] st1 ident(3) Cons.prems(2)
        show ?thesis by (simp add: nth_append)
      next
        case (Some i0)
        with idx have ig: "index_get idx ident0 = Some i0" by simp
        note res = mergeCandidate_match_result(1) [OF \<open>candidate_id c0 = Some ident0\<close> ig step]
        note ok = mergeCandidate_match_ok [OF \<open>candidate_id c0 = Some ident0\<close> ig step]
        from res Cons.prems(2) have "length ps \<le> length (productions st1)" by simp
        from Cons.IH [OF rest this c Cons.prems(4)] obtain ts where
          ts: "or_empty (get_named (productions st1 ! i) ''themes'') = JArray ts" by blast
        show ?thesis
        proof (cases "i = i0")
          case True
          with ts res ok show ?thesis by (simp add: or_empty_themes_merge_into)
        next
          case False
          with ts res show ?thesis by simp
        qed
      qed
    qed
  qed
qed

lemma mergeAll_settled:
  assumes idx: "\<And>k. index_get idx k = position_of ps1 k"
  shows "\<forall>c\<in>set cs. \<forall>j. candidate_position ps1 c = Some j \<longrightarrow>
            ps1 ! j \<noteq> JNull \<and> (\<exists>ts. or_empty (get_named (ps1 ! j) ''themes'') = JArray ts)
            \<and> merge_into (ps1 ! j) c = ps1 ! j \<Longrightarrow>
         productions st0 = ps1 @ extra \<Longrightarrow>
         \<exists>st extra'. mergeAll idx cs st0 = Inr st \<and> updatedCount st = updatedCount st0
            \<and> productions st = ps1 @ extra'"
proof (induction cs arbitrary: st0 extra)
  case Nil
  then show ?case by simp
next
  case (Cons c cs)
  from Cons.prems(1) have tail: "\<forall>c\<in>set cs. \<forall>j. candidate_position ps1 c = Some j \<longrightarrow>
            ps1 ! j \<noteq> JNull \<and> (\<exists>ts. or_empty (get_named (ps1 ! j) ''themes'') = JArray ts)
            \<and> merge_into (ps1 ! j) c = ps1 ! j" by simp
  show ?case
  proof (cases "candidate_id c")
    case None
    then have "mergeCandidate idx c st0 = Inr st0" by (rule mergeCandidate_skip)
    with Cons.IH [OF tail Cons.prems(2)] show ?thesis by simp
  next
    case (Some ident)
    show ?thesis
    proof (cases "position_of ps1 ident")
      case None
      with idx have "index_get idx ident = None" by simp
      from mergeCandidate_new [OF Some this, of st0]
      have step: "mergeCandidate idx c st0
          = Inr (st0\<lparr>productions := productions st0 @ [c], createdCount := createdCount st0 + 1\<rparr>)" .
      have "productions (st0\<lparr>productions := productions st0 @ [c], createdCount := createdCount st0 + 1\<rparr>)
          = ps1 @ (extra @ [c])" using Cons.prems(2) by simp
      from Cons.IH [OF tail this] step show ?thesis by simp
    next
      case (Some j)
      with \<open>candidate_id c = Some ident\<close> have cp: "candidate_position ps1 c = Some j"
        by (simp add: candidate_position_def)
      from position_of_SomeD [OF Some] have j: "j < length ps1" by simp
      with Cons.prems(2) have nth: "productions st0 ! j = ps1 ! j" by (simp add: nth_append)
      from Cons.prems(1) cp obtain ts where
        s: "ps1 ! j \<noteq> JNull" "or_empty (get_named (ps1 ! j) ''themes'') = JArray ts"
           "merge_into (ps1 ! j) c = ps1 ! j" by auto
      from Some idx have ig: "index_get idx ident = Some j" by simp
      from j Cons.prems(2) have jl: "j < length (productions st0)" by simp
      have lu: "(productions st0)[j := ps1 ! j] = productions st0"
        using nth by (metis list_update_id)
      from mergeCandidate_match [OF \<open>candidate_id c = Some ident\<close> ig jl, of ts] s nth lu
      have "\<exists>st1. mergeCandidate idx c st0 = Inr st1
          \<and> productions st1 = productions st0 \<and> updatedCount st1 = updatedCount st0"
        by simp
      then obtain st1 where step: "mergeCandidate idx c st0 = Inr st1"
        and st1: "productions st1 = productions st0" "updatedCount st1 = updatedCount st0"
        by blast
      from st1(1) Cons.prems(2) have "productions st1 = ps1 @ extra" by simp
      from Cons.IH [OF tail this] step st1(2) show ?thesis by simp
    qed
  qed
qed

text \<open>
  Claim C6, as the code has it. Let the first run end without error, let the candidates that
  it treats be JavaScript objects with pairwise different ids, and let every new one among
  them carry a \<^verbatim>\<open>themes\<close> array. Then the second run, with the same candidates and the same
  limit on the output of the first run, ends without error as well; its updated count is 0,
  its themes-unchanged count is the number of candidates whose id matches a record of that
  output, and it leaves every record of that output as it is.
\<close>

theorem second_run_updates_nothing:
  assumes run1: "merge limit candidates existing = Inr st1"
    and wf: "\<forall>c\<in>set (limitedCandidates limit candidates). is_js_value c"
    and dist: "distinct (List.map_filter candidate_id (limitedCandidates limit candidates))"
    and themes: "\<forall>c\<in>set (limitedCandidates limit candidates).
                   is_new existing c \<longrightarrow> (\<exists>ts. get_named c ''themes'' = Some (JArray ts))"
  shows "\<exists>st2. merge limit candidates (productions st1) = Inr st2
           \<and> updatedCount st2 = 0
           \<and> themesUnchangedCount st2
               = length (filter (\<lambda>c. candidate_position (productions st1) c \<noteq> None)
                           (limitedCandidates limit candidates))
           \<and> take (length (productions st1)) (productions st2) = productions st1"
proof -
  define cs where "cs = limitedCandidates limit candidates"
  define n where "n = length existing"
  define F where "F = (\<lambda>i. foldl merge_into (existing ! i)
                           (filter (\<lambda>c. candidate_position existing c = Some i) cs))"
  define news where "news = filter (is_new existing) cs"
  define ps1 where "ps1 = productions st1"
  note wf' = wf [folded cs_def] and dist' = dist [folded cs_def] and themes' = themes [folded cs_def]
  have ps1: "ps1 = map F [0..<n] @ news"
    using merge_characterised(1) [OF run1] by (simp add: ps1_def F_def news_def cs_def n_def)
  from run1 obtain idx1 where idx1: "buildProductionIndex 0 existing Map.empty = Inr idx1"
    and loop1: "mergeAll idx1 cs (initial_state existing) = Inr st1"
    by (auto simp: merge_def cs_def split: sum.splits)
  have ig1: "\<And>k. index_get idx1 k = position_of existing k" by (rule index_get_build [OF idx1])
  have nonull: "JNull \<notin> set existing" by (rule buildProductionIndex_no_null [OF idx1])

  have rid: "map record_id (map F [0..<n]) = map record_id existing"
  proof (rule nth_equalityI)
    show "length (map record_id (map F [0..<n])) = length (map record_id existing)"
      by (simp add: n_def)
  next
    fix i assume "i < length (map record_id (map F [0..<n]))"
    then have i: "i < length existing" by (simp add: n_def)
    from record_id_merged_entry [OF wf' i] i
    show "map record_id (map F [0..<n]) ! i = map record_id existing ! i"
      by (simp add: F_def n_def)
  qed
  have pos1: "\<And>k. position_of ps1 k
      = (case position_of news k of Some j \<Rightarrow> Some (n + j) | None \<Rightarrow> position_of existing k)"
    using position_of_cong [OF rid] by (simp add: ps1 position_of_append split: option.splits)

  have news_id: "\<And>c' k. c' \<in> set news \<Longrightarrow> record_id c' = Some k \<Longrightarrow>
      candidate_id c' = Some k \<and> position_of existing k = None \<and> c' \<in> set cs"
  proof -
    fix c' k assume c': "c' \<in> set news" and r: "record_id c' = Some k"
    from c' have in_cs: "c' \<in> set cs" and new: "is_new existing c'" by (simp_all add: news_def)
    from new obtain k' where k': "candidate_id c' = Some k'" "position_of existing k' = None"
      by (auto simp: is_new_def candidate_position_def)
    from record_id_candidate [OF k'(1)] r have "k' = k" by (simp split: if_splits)
    with k' in_cs show "candidate_id c' = Some k \<and> position_of existing k = None \<and> c' \<in> set cs"
      by simp
  qed

  have nn1: "JNull \<notin> set ps1"
  proof
    assume "JNull \<in> set ps1"
    then consider i where "i < n" "F i = JNull" | "JNull \<in> set news" by (auto simp: ps1)
    then show False
    proof cases
      case 1
      show False
      proof (cases "filter (\<lambda>c. candidate_position existing c = Some i) cs = []")
        case True
        with 1 have "existing ! i = JNull" by (simp add: F_def)
        with 1(1) nonull show False by (metis n_def nth_mem)
      next
        case False
        from foldl_merge_into_object [OF False, of "existing ! i"] 1(2) show False
          by (simp add: F_def)
      qed
    next
      case 2
      then have "candidate_id JNull \<noteq> None" by (simp add: news_def is_new_def)
      then show False by (simp add: candidate_id_def)
    qed
  qed

  have settled: "\<forall>c\<in>set cs. \<forall>j. candidate_position ps1 c = Some j \<longrightarrow>
            ps1 ! j \<noteq> JNull \<and> (\<exists>ts. or_empty (get_named (ps1 ! j) ''themes'') = JArray ts)
            \<and> merge_into (ps1 ! j) c = ps1 ! j"
  proof (intro ballI allI impI)
    fix c j assume c_in: "c \<in> set cs" and cp: "candidate_position ps1 c = Some j"
    from candidate_position_SomeD [OF cp] obtain ident where
      cid: "candidate_id c = Some ident" and pj: "position_of ps1 ident = Some j" by blast
    from candidate_id_object [OF cid] obtain ckvs where
      c: "c = JObject ckvs" "map_of ckvs ''id'' = Some ident" by blast
    from wf' c_in c have can: "canonical ckvs" by auto
    then have dk: "distinct (map fst ckvs)" by (simp add: canonical_def)
    show "ps1 ! j \<noteq> JNull \<and> (\<exists>ts. or_empty (get_named (ps1 ! j) ''themes'') = JArray ts)
            \<and> merge_into (ps1 ! j) c = ps1 ! j"
    proof (cases "position_of existing ident")
      case (Some i)
      have "position_of news ident = None"
      proof (rule ccontr)
        assume "position_of news ident \<noteq> None"
        then obtain p where "p \<in> set news" "record_id p = Some ident"
          by (auto simp: position_of_None)
        from news_id [OF this] Some show False by simp
      qed
      with pos1 [of ident] pj Some have ji: "j = i" by simp
      from position_of_SomeD [OF Some] have i: "i < n" and ri: "record_id (existing ! i) = Some ident"
        by (simp_all add: n_def)
      have cp1: "candidate_position existing c = Some i"
        using cid Some by (simp add: candidate_position_def)
      have "filter (\<lambda>y. candidate_position existing y = Some i) cs
          = filter (\<lambda>y. candidate_id y = Some ident) cs"
      proof (rule filter_cong [OF refl])
        fix y assume "y \<in> set cs"
        show "(candidate_position existing y = Some i) = (candidate_id y = Some ident)"
        proof
          assume "candidate_position existing y = Some i"
          from candidate_position_SomeD [OF this] ri show "candidate_id y = Some ident" by auto
        next
          assume "candidate_id y = Some ident"
          with Some show "candidate_position existing y = Some i"
            by (simp add: candidate_position_def)
        qed
      qed
      also have "\<dots> = [c]" by (rule filter_unique_id [OF dist' c_in cid])
      finally have Fi: "F i = merge_into (existing ! i) c" by (simp add: F_def)
      from i have nth: "ps1 ! i = F i" by (simp add: ps1 nth_append)
      have "length existing \<le> length (productions (initial_state existing))"
        by (simp add: initial_state_def)
      from mergeAll_themes_arrays [where ps = existing, OF ig1 loop1 this c_in cp1]
      obtain ts where "or_empty (get_named (existing ! i) ''themes'') = JArray ts"
        by (auto simp: initial_state_def)
      then have ar: "or_empty (get_named (F i) ''themes'') = JArray ts"
        by (simp add: Fi or_empty_themes_merge_into)
      have tw: "merge_into (F i) c = F i"
        unfolding Fi c(1) by (rule merge_into_twice [OF dk])
      have "F i \<noteq> JNull" using merge_into_object [of "existing ! i" c] by (auto simp: Fi)
      with ar tw nth ji show ?thesis by simp
    next
      case None
      with pos1 [of ident] pj obtain j' where
        j': "position_of news ident = Some j'" "j = n + j'" by (auto split: option.splits)
      from position_of_SomeD [OF j'(1)] have jl: "j' < length news"
        and rj: "record_id (news ! j') = Some ident" by simp_all
      from jl have "news ! j' \<in> set news" by simp
      from news_id [OF this rj] have "candidate_id (news ! j') = Some ident" "news ! j' \<in> set cs"
        by simp_all
      from distinct_ids_unique [OF dist' this(2) c_in this(1) cid] have nc: "news ! j' = c" .
      from j'(2) have nth: "ps1 ! j = c" by (simp add: ps1 nth_append nc)
      have "is_new existing c" using cid None by (simp add: is_new_def candidate_position_def)
      with themes' c_in obtain ts where ts: "get_named c ''themes'' = Some (JArray ts)" by blast
      with c have mt: "map_of ckvs ''themes'' = Some (JArray ts)" by simp
      have self: "merge_into c c = c"
        unfolding c(1) by (rule merge_into_self [OF can mt]) simp
      from ts c self nth show ?thesis by simp
    qed
  qed

  from buildProductionIndex_ok [OF nn1] obtain idx2 where
    idx2: "buildProductionIndex 0 ps1 Map.empty = Inr idx2" by blast
  have ig2: "\<And>k. index_get idx2 k = position_of ps1 k" by (rule index_get_build [OF idx2])
  have "productions (initial_state ps1) = ps1 @ []" by (simp add: initial_state_def)
  from mergeAll_settled [OF ig2 settled this] obtain st2 extra' where
    loop2: "mergeAll idx2 cs (initial_state ps1) = Inr st2"
    and u: "updatedCount st2 = updatedCount (initial_state ps1)"
    and p2: "productions st2 = ps1 @ extra'" by blast
  from idx2 loop2 have run2: "merge limit candidates ps1 = Inr st2"
    by (simp add: merge_def cs_def)
  from u have u0: "updatedCount st2 = 0" by (simp add: initial_state_def)
  from merge_characterised(3) [OF run2] run2 u0 p2 show ?thesis
    by (auto simp: ps1_def)
qed

theorem second_run_updates_nothing_witness:
  "merge None
     [JObject [(''id'', JString ''a''), (''themes'', JArray [JString ''y'']),
               (''city'', JString ''LA'')],
      JObject [(''id'', JString ''b''), (''themes'', JArray [JString ''z''])]]
     [JObject [(''id'', JString ''a''), (''themes'', JArray [JString ''x'']),
               (''city'', JString ''NY'')]]
   = Inr \<lparr>productions =
          [JObject [(''id'', JString ''a''), (''themes'', JArray [JString ''x'']),
                    (''city'', JString ''LA'')],
           JObject [(''id'', JString ''b''), (''themes'', JArray [JString ''z''])]],
        createdCount = 1, updatedCount = 1, themesUnchangedCount = 1,
        themeMismatchCount = 1\<rparr>
   \<and> is_js_value (JObject [(''id'', JString ''a''), (''themes'', JArray [JString ''y'']),
               (''city'', JString ''LA'')])
   \<and> is_js_value (JObject [(''id'', JString ''b''), (''themes'', JArray [JString ''z''])])
   \<and> distinct (List.map_filter candidate_id
        [JObject [(''id'', JString ''a''), (''themes'', JArray [JString ''y'']),
               (''city'', JString ''LA'')],
         JObject [(''id'', JString ''b''), (''themes'', JArray [JString ''z''])]])
   \<and> merge None
     [JObject [(''id'', JString ''a''), (''themes'', JArray [JString ''y'']),
               (''city'', JString ''LA'')],
      JObject [(''id'', JString ''b''), (''themes'', JArray [JString ''z''])]]
     [JObject [(''id'', JString ''a''), (''themes'', JArray [JString ''x'']),
                    (''city'', JString ''LA'')],
      JObject [(''id'', JString ''b''), (''themes'', JArray [JString ''z''])]]
   = Inr \<lparr>productions =
          [JObject [(''id'', JString ''a''), (''themes'', JArray [JString ''x'']),
                    (''city'', JString ''LA'')],
           JObject [(''id'', JString ''b''), (''themes'', JArray [JString ''z''])]],
        createdCount = 0, updatedCount = 0, themesUnchangedCount = 2,
        themeMismatchCount = 1\<rparr>"
proof -
  let ?c1 = "JObject [(''id'', JString ''a''), (''themes'', JArray [JString ''y'']),
               (''city'', JString ''LA'')]"
  let ?c2 = "JObject [(''id'', JString ''b''), (''themes'', JArray [JString ''z''])]"
  let ?ps = "[JObject [(''id'', JString ''a''), (''themes'', JArray [JString ''x'']),
               (''city'', JString ''NY'')]]"
  let ?st1 = "\<lparr>productions =
          [JObject [(''id'', JString ''a''), (''themes'', JArray [JString ''x'']),
                    (''city'', JString ''LA'')], ?c2],
        createdCount = 1, updatedCount = 1, themesUnchangedCount = 1,
        themeMismatchCount = 1\<rparr>"
  have h1: "merge None [?c1, ?c2] ?ps = Inr ?st1" by (simp add: eval_defs)
  have j1: "is_js_value ?c1" by (simp add: canonical_def key_before_def array_index_def is_digit_def digit_chars_def)
  have j2: "is_js_value ?c2" by (simp add: canonical_def key_before_def array_index_def is_digit_def digit_chars_def)
  from j1 j2 have h2: "\<forall>c\<in>set (limitedCandidates None [?c1, ?c2]). is_js_value c"
    by (simp add: limitedCandidates_def)
  have h3: "distinct (List.map_filter candidate_id [?c1, ?c2])"
    by (simp add: List.map_filter_simps candidate_id_def)
  from h3 have h3': "distinct (List.map_filter candidate_id (limitedCandidates None [?c1, ?c2]))"
    by (simp add: limitedCandidates_def)
  have h4: "\<forall>c\<in>set (limitedCandidates None [?c1, ?c2]).
                   is_new ?ps c \<longrightarrow> (\<exists>ts. get_named c ''themes'' = Some (JArray ts))"
    by (simp add: limitedCandidates_def)
  have r2: "merge None [?c1, ?c2] (productions ?st1)
     = Inr \<lparr>productions =
          [JObject [(''id'', JString ''a''), (''themes'', JArray [JString ''x'']),
                    (''city'', JString ''LA'')], ?c2],
        createdCount = 0, updatedCount = 0, themesUnchangedCount = 2,
        themeMismatchCount = 1\<rparr>"
    by (simp add: eval_defs)
  from second_run_updates_nothing [OF h1 h2 h3' h4]
  have "\<exists>st2. merge None [?c1, ?c2] (productions ?st1) = Inr st2 \<and> updatedCount st2 = 0" by blast
  with h1 j1 j2 h3 r2 show ?thesis by simp
qed

text \<open>
  Claim C6 as stated fails. A new candidate without \<^verbatim>\<open>themes\<close> is appended as it is by the
  first run; the second run finds it, forces \<^verbatim>\<open>themes\<close> to the empty array, and counts one
  update.
\<close>

theorem second_run_adds_empty_themes:
  "merge None [JObject [(''id'', JString ''b'')]] []
     = Inr \<lparr>productions = [JObject [(''id'', JString ''b'')]],
            createdCount = 1, updatedCount = 0, themesUnchangedCount = 0,
            themeMismatchCount = 0\<rparr>
   \<and> merge None [JObject [(''id'', JString ''b'')]] [JObject [(''id'', JString ''b'')]]
     = Inr \<lparr>productions = [JObject [(''id'', JString ''b''), (''themes'', JArray [])]],
            createdCount = 0, updatedCount = 1, themesUnchangedCount = 1,
            themeMismatchCount = 0\<rparr>"
  by (simp add: eval_defs)

end
